theory Spec2Isabelle
  imports Complex_Main "HOL-Library.Multiset" "HOL-Library.Sublist"
begin

section \<open>JavaScript values\<close>

text \<open>
  A template is the result of \<^verbatim>\<open>JSON.parse\<close>; generated values are the same kind of value
  plus \<^verbatim>\<open>undefined\<close>. An object is the list of its own properties in the order
  \<^verbatim>\<open>Object.keys\<close> enumerates them. Numbers are idealised as reals.
\<close>

datatype json =
    JUndefined
  | JNull
  | JBool bool
  | JNum real
  | JStr string
  | JArr "json list"
  | JObj "(string \<times> json) list"

text \<open>What the program can throw: a \<^verbatim>\<open>TypeError\<close> of the language, a failure of the file
  system, or the \<^verbatim>\<open>Error\<close> that \<^verbatim>\<open>main\<close> throws. \<open>Unmodelled\<close> marks the places where the
  source applies an implicit JavaScript coercion (or a runtime check of Deno) that this
  development does not follow; no theorem below speaks about a run that ends there.\<close>

datatype error = TypeError | IOError | Error string | Unmodelled

text \<open>Truthiness, as \<^verbatim>\<open>if (v)\<close>, \<^verbatim>\<open>v || w\<close> and \<^verbatim>\<open>v ? a : b\<close> test it.\<close>

fun truthy :: "json \<Rightarrow> bool" where
  "truthy JUndefined = False"
| "truthy JNull = False"
| "truthy (JBool b) = b"
| "truthy (JNum x) = (x \<noteq> 0)"
| "truthy (JStr s) = (s \<noteq> [])"
| "truthy (JArr xs) = True"
| "truthy (JObj kvs) = True"

text \<open>\<^verbatim>\<open>a || b\<close>\<close>

definition js_or :: "json \<Rightarrow> json \<Rightarrow> json" where
  "js_or a b = (if truthy a then a else b)"

text \<open>\<^verbatim>\<open>v?.k\<close> for the property names the program reads (none of them is inherited from a
  prototype): a property of an object, \<^verbatim>\<open>undefined\<close> on everything else.\<close>

fun get_prop :: "json \<Rightarrow> string \<Rightarrow> json" where
  "get_prop (JObj kvs) k = (case map_of kvs k of Some v \<Rightarrow> v | None \<Rightarrow> JUndefined)"
| "get_prop v k = JUndefined"

subsection \<open>Property order\<close>

text \<open>Decimal numerals, as \<^verbatim>\<open>String(i)\<close> prints a non-negative integer.\<close>

definition digit_char :: "nat \<Rightarrow> char" where
  "digit_char d = char_of (48 + d)"

fun show_nat :: "nat \<Rightarrow> string" where
  "show_nat n = (if n < 10 then [digit_char n] else show_nat (n div 10) @ [digit_char (n mod 10)])"

declare show_nat.simps [simp del]

definition is_digit :: "char \<Rightarrow> bool" where
  "is_digit c = (48 \<le> (of_char c :: nat) \<and> (of_char c :: nat) \<le> 57)"

definition parse_nat :: "string \<Rightarrow> nat" where
  "parse_nat s = foldl (\<lambda>acc c. 10 * acc + (of_char c - 48)) 0 s"

text \<open>An array index is a canonical numeral below \<open>2^32 - 1\<close>. \<^verbatim>\<open>Object.keys\<close> lists the
  array-index keys of an object first, in ascending order, then the other keys in the order
  they were added.\<close>

definition array_index :: "string \<Rightarrow> nat option" where
  "array_index s =
     (if s \<noteq> [] \<and> list_all is_digit s \<and> (s = ''0'' \<or> hd s \<noteq> CHR ''0'')
         \<and> parse_nat s < 4294967295
      then Some (parse_nat s) else None)"

fun insert_index :: "nat \<Rightarrow> string \<Rightarrow> json \<Rightarrow> (string \<times> json) list \<Rightarrow> (string \<times> json) list" where
  "insert_index n k v [] = [(k, v)]"
| "insert_index n k v ((k', v') # rest) =
     (case array_index k' of
        Some m \<Rightarrow> if m < n then (k', v') # insert_index n k v rest
                  else (k, v) # (k', v') # rest
      | None \<Rightarrow> (k, v) # (k', v') # rest)"

text \<open>\<^verbatim>\<open>object[k] = v\<close> on a plain object: an existing property keeps its place. (Deno, which
  the program runs on, removes the accessor \<^verbatim>\<open>__proto__\<close> from \<^verbatim>\<open>Object.prototype\<close>, so this key
  is stored like any other.)\<close>

definition obj_put :: "(string \<times> json) list \<Rightarrow> string \<Rightarrow> json \<Rightarrow> (string \<times> json) list" where
  "obj_put kvs k v =
     (if k \<in> fst ` set kvs then map (\<lambda>(k', v'). if k' = k then (k', v) else (k', v')) kvs
      else case array_index k of
             None \<Rightarrow> kvs @ [(k, v)]
           | Some n \<Rightarrow> insert_index n k v kvs)"

text \<open>\<^verbatim>\<open>Object.keys(x)\<close> paired with \<^verbatim>\<open>x[key]\<close>; it throws on \<^verbatim>\<open>null\<close> and
  \<^verbatim>\<open>undefined\<close>.\<close>

fun own_entries :: "json \<Rightarrow> error + (string \<times> json) list" where
  "own_entries (JObj kvs) = Inr kvs"
| "own_entries (JArr xs) = Inr (zip (map show_nat [0..<length xs]) xs)"
| "own_entries (JStr s) = Inr (zip (map show_nat [0..<length s]) (map (\<lambda>c. JStr [c]) s))"
| "own_entries (JNum x) = Inr []"
| "own_entries (JBool b) = Inr []"
| "own_entries JNull = Inl TypeError"
| "own_entries JUndefined = Inl TypeError"

subsection \<open>Strings and conversions\<close>

text \<open>\<^verbatim>\<open>String.prototype.toLowerCase\<close> on the letters A to Z. No other character lower-cases to
  a letter that occurs in the name of a builtin generator, so the dispatch on generator names
  sees exactly this.\<close>

definition lower_char :: "char \<Rightarrow> char" where
  "lower_char c =
     (if 65 \<le> (of_char c :: nat) \<and> (of_char c :: nat) \<le> 90 then char_of ((of_char c :: nat) + 32) else c)"

definition toLowerCase :: "string \<Rightarrow> string" where
  "toLowerCase s = map lower_char s"

text \<open>\<^verbatim>\<open>Array.prototype.join\<close> on strings already converted.\<close>

fun join_strings :: "string \<Rightarrow> string list \<Rightarrow> string" where
  "join_strings sep [] = []"
| "join_strings sep [x] = x"
| "join_strings sep (x # y # rest) = x @ sep @ join_strings sep (y # rest)"

section \<open>The surroundings of the program\<close>

text \<open>
  The state a run threads through. The sources of randomness are tapes: \<open>random_outcomes w n\<close>
  is what the \<open>n\<close>-th call of \<^verbatim>\<open>Math.random()\<close> returns, and likewise for \<^verbatim>\<open>randomName()\<close>,
  \<^verbatim>\<open>randomVarName()\<close> (names.ts) and \<^verbatim>\<open>ulid()\<close>. \<open>valueTrackers\<close> is the map that \<^verbatim>\<open>main\<close>
  creates, from producer name to \<^verbatim>\<open>ValueTracker\<close>; a tracker is its \<^verbatim>\<open>values\<close> map. Keys of
  both maps are compared as \<^verbatim>\<open>Map\<close> compares strings, numbers, booleans, \<^verbatim>\<open>null\<close> and
  \<^verbatim>\<open>undefined\<close>. \<open>filename_arrays\<close> is the store of the \<^verbatim>\<open>filenames\<close> arrays of the file
  generators, each held by reference and shortened in place by \<^verbatim>\<open>pop()\<close>.
\<close>

type_synonym ValueTracker = "json \<Rightarrow> json list option"

record world =
  random_outcomes :: "nat \<Rightarrow> real"
  random_calls :: nat
  randomName_outcomes :: "nat \<Rightarrow> string"
  randomName_calls :: nat
  randomVarName_outcomes :: "nat \<Rightarrow> string"
  randomVarName_calls :: nat
  ulid_outcomes :: "nat \<Rightarrow> string"
  ulid_calls :: nat
  valueTrackers :: "json \<Rightarrow> ValueTracker option"
  filename_arrays :: "nat \<Rightarrow> string list"
  allocated :: nat

definition Math_random :: "world \<Rightarrow> real \<times> world" where
  "Math_random w = (random_outcomes w (random_calls w), w\<lparr>random_calls := Suc (random_calls w)\<rparr>)"

definition randomName :: "world \<Rightarrow> string \<times> world" where
  "randomName w =
     (randomName_outcomes w (randomName_calls w), w\<lparr>randomName_calls := Suc (randomName_calls w)\<rparr>)"

definition randomVarName :: "world \<Rightarrow> string \<times> world" where
  "randomVarName w =
     (randomVarName_outcomes w (randomVarName_calls w),
      w\<lparr>randomVarName_calls := Suc (randomVarName_calls w)\<rparr>)"

definition ulid :: "world \<Rightarrow> string \<times> world" where
  "ulid w = (ulid_outcomes w (ulid_calls w), w\<lparr>ulid_calls := Suc (ulid_calls w)\<rparr>)"

text \<open>
  What the program reads and calls but does not define: the file system as Deno shows it
  (\<open>readDirSync dir\<close> lists the entries of a directory, each a name and its \<^verbatim>\<open>isFile\<close> flag;
  \<open>None\<close> when Deno throws), lodash's \<^verbatim>\<open>shuffle\<close> (given the outcomes of \<^verbatim>\<open>Math.random()\<close> and
  the number of calls made so far, it returns the shuffled array and the number of calls
  made after it), and the printing of a number that is not a small integer.
\<close>

record env =
  readDirSync :: "string \<Rightarrow> (string \<times> bool) list option"
  readTextFileSync :: "string \<Rightarrow> string option"
  lodash_shuffle :: "string list \<Rightarrow> (nat \<Rightarrow> real) \<Rightarrow> nat \<Rightarrow> string list \<times> nat"
  number_toString :: "real \<Rightarrow> string"

text \<open>\<^verbatim>\<open>String(x)\<close> for a number: an integer below \<open>10^21\<close> in absolute value prints in
  decimal.\<close>

definition num_str :: "env \<Rightarrow> real \<Rightarrow> string" where
  "num_str e x =
     (if x = of_int \<lfloor>x\<rfloor> \<and> \<bar>x\<bar> < 10 ^ 21
      then (if x < 0 then ''-'' @ show_nat (nat (- \<lfloor>x\<rfloor>)) else show_nat (nat \<lfloor>x\<rfloor>))
      else number_toString e x)"

text \<open>\<^verbatim>\<open>String(v)\<close>, which is also what \<^verbatim>\<open>+\<close> makes of an operand when the other one is a
  string. An element of an array that is \<^verbatim>\<open>null\<close> or \<^verbatim>\<open>undefined\<close> prints as nothing. A
  parsed object has no \<^verbatim>\<open>toString\<close> of its own that could be called.\<close>

fun toStr :: "env \<Rightarrow> json \<Rightarrow> string" where
  "toStr e JUndefined = ''undefined''"
| "toStr e JNull = ''null''"
| "toStr e (JBool b) = (if b then ''true'' else ''false'')"
| "toStr e (JNum x) = num_str e x"
| "toStr e (JStr s) = s"
| "toStr e (JArr xs) =
     join_strings '','' (map (\<lambda>x. if x = JUndefined \<or> x = JNull then [] else toStr e x) xs)"
| "toStr e (JObj kvs) = ''[object Object]''"

text \<open>\<^verbatim>\<open>join(elements, separator)\<close> of lodash, which is \<^verbatim>\<open>Array.prototype.join\<close>.\<close>

definition join :: "env \<Rightarrow> json list \<Rightarrow> json \<Rightarrow> string" where
  "join e elements separator =
     join_strings (toStr e separator)
       (map (\<lambda>x. if x = JUndefined \<or> x = JNull then [] else toStr e x) elements)"

text \<open>\<^verbatim>\<open>xs[i]\<close> for an index computed by \<^verbatim>\<open>Math.floor\<close>: \<^verbatim>\<open>undefined\<close> out of range.\<close>

definition at_index :: "'a list \<Rightarrow> int \<Rightarrow> 'a option" where
  "at_index xs i = (if 0 \<le> i \<and> i < int (length xs) then Some (xs ! nat i) else None)"

section \<open>Value generators\<close>

text \<open>
  The classes that implement \<^verbatim>\<open>IValueGenerator\<close>, one constructor each, with the fields of the
  instance. The field \<^verbatim>\<open>valueTrackers\<close> is a reference to the one map of the state; it is
  \<open>True\<close> when the constructor was given the map and \<open>False\<close> when it was given nothing
  (main.ts, line 293: \<^verbatim>\<open>new CopyValueGenerator(options)\<close>). The \<^verbatim>\<open>filenames\<close> of a file generator
  is the address of its array in \<open>filename_arrays\<close>.
\<close>

datatype vgen =
    DefaultValueGenerator json
  | NameValueGenerator json
  | IdValueGenerator
  | EnumValueGenerator json
  | FileValueGenerator json nat
  | ReferenceValueGenerator json bool
  | JoinValueGenerator json bool vgen
  | CopyValueGenerator json bool
  | CsvValueGenerator json
  | JavaScriptValueGenerator json

text \<open>The constructor of \<^verbatim>\<open>FileValueGenerator\<close> (main.ts, lines 55-64): the files of the
  directory, shuffled once, in a new array.\<close>

definition FileValueGenerator_new :: "env \<Rightarrow> json \<Rightarrow> world \<Rightarrow> error + vgen \<times> world" where
  "FileValueGenerator_new e options w =
     (if options = JNull \<or> options = JUndefined then Inl TypeError
      else case get_prop options ''directory'' of
             JStr dir \<Rightarrow>
               (case readDirSync e dir of
                  None \<Rightarrow> Inl IOError
                | Some entries \<Rightarrow>
                    (let names = map (\<lambda>entry. dir @ ''/'' @ fst entry) (filter snd entries);
                         shuffled = lodash_shuffle e names (random_outcomes w) (random_calls w);
                         a = allocated w
                     in Inr (FileValueGenerator options a,
                             w\<lparr>random_calls := snd shuffled,
                               filename_arrays := (filename_arrays w)(a := fst shuffled),
                               allocated := Suc a\<rparr>)))
           | _ \<Rightarrow> Inl Unmodelled)"

lemma size_map_of: "map_of kvs k = Some v \<Longrightarrow> size v < size (JObj kvs)"
  by (induction kvs) (auto split: if_splits)

lemma size_get_prop: "size (get_prop (JObj kvs) k) < size (JObj kvs)"
  by (cases "map_of kvs k") (use size_map_of[of kvs k] in auto)

lemma size_get_prop_le: "size (get_prop j k) \<le> size j"
proof (cases j)
  case (JObj kvs)
  with size_get_prop[of kvs k] show ?thesis by simp
qed simp_all

text \<open>
  \<^verbatim>\<open>createValueGenerator\<close> (main.ts, lines 273-301). \<^verbatim>\<open>name?.toLowerCase()\<close> is
  \<^verbatim>\<open>undefined\<close> for an absent name and throws for a name that is neither absent nor a string.
  The constructor of \<^verbatim>\<open>JoinValueGenerator\<close> (lines 123-133) creates the element generator.
\<close>

function createValueGenerator :: "env \<Rightarrow> json \<Rightarrow> json \<Rightarrow> bool \<Rightarrow> world \<Rightarrow> error + vgen \<times> world" where
  "createValueGenerator e nm options vt w =
     (case nm of
        JUndefined \<Rightarrow> Inr (DefaultValueGenerator options, w)
      | JNull \<Rightarrow> Inr (DefaultValueGenerator options, w)
      | JStr s \<Rightarrow>
          (let k = toLowerCase s in
           if k = ''name'' then Inr (NameValueGenerator options, w)
           else if k = ''id'' then Inr (IdValueGenerator, w)
           else if k = ''enum'' then Inr (EnumValueGenerator options, w)
           else if k = ''file'' then FileValueGenerator_new e options w
           else if k = ''reference'' \<or> k = ''ref'' then Inr (ReferenceValueGenerator options vt, w)
           else if k = ''join'' then
             (case createValueGenerator e (get_prop (get_prop options ''element'') ''generator'')
                     (get_prop options ''element'') vt w of
                Inl err \<Rightarrow> Inl err
              | Inr (el, w1) \<Rightarrow> Inr (JoinValueGenerator options vt el, w1))
           else if k = ''copy'' then Inr (CopyValueGenerator options False, w)
           else if k = ''csv'' then Inr (CsvValueGenerator options, w)
           else if k = ''javascript'' then Inr (JavaScriptValueGenerator options, w)
           else Inr (DefaultValueGenerator options, w))
      | _ \<Rightarrow> Inl TypeError)"
  by pat_completeness auto
termination
proof (relation "measure (\<lambda>(e, nm, options, vt, w). size options + (case nm of JStr s \<Rightarrow> 1 | _ \<Rightarrow> 0))")
  show "wf (measure (\<lambda>(e, nm, options, vt, w). size options + (case nm of JStr s \<Rightarrow> 1 | _ \<Rightarrow> 0)))"
    by simp
next
  fix e :: env and nm options :: json and vt :: bool and w :: world and s k :: string
  assume "nm = JStr s"
  moreover have "size (get_prop options ''element'')
        + (case get_prop (get_prop options ''element'') ''generator'' of JStr s \<Rightarrow> 1 | _ \<Rightarrow> 0)
      < size options + 1"
  proof (cases options)
    case (JObj kvs)
    have a: "(case get_prop (get_prop options ''element'') ''generator'' of JStr s \<Rightarrow> 1 | _ \<Rightarrow> 0) \<le> (1::nat)"
      by (simp split: json.splits)
    have b: "size (get_prop options ''element'') < size options"
      unfolding JObj by (rule size_get_prop)
    from a b show ?thesis by linarith
  qed simp_all
  ultimately show "((e, get_prop (get_prop options ''element'') ''generator'',
          get_prop options ''element'', vt, w), e, nm, options, vt, w)
        \<in> measure (\<lambda>(e, nm, options, vt, w). size options + (case nm of JStr s \<Rightarrow> 1 | _ \<Rightarrow> 0))"
    by simp
qed

declare createValueGenerator.simps [simp del]

subsection \<open>The generators that call no other generator\<close>

text \<open>\<^verbatim>\<open>EnumValueGenerator.generate\<close> (main.ts, lines 44-49). The index is taken in
  \<^verbatim>\<open>options.options\<close>, an array in a well-formed leaf; a string is indexed the same way, a
  number or boolean has no \<^verbatim>\<open>length\<close> and no element.\<close>

definition EnumValueGenerator_generate :: "json \<Rightarrow> world \<Rightarrow> error + json \<times> world" where
  "EnumValueGenerator_generate options w =
     (if options = JNull \<or> options = JUndefined then Inl TypeError
      else case get_prop options ''options'' of
             JArr xs \<Rightarrow>
               (let r = Math_random w
                in Inr (case at_index xs \<lfloor>fst r * real (length xs)\<rfloor> of
                          Some v \<Rightarrow> v
                        | None \<Rightarrow> JUndefined,
                        snd r))
           | JStr s \<Rightarrow>
               (let r = Math_random w
                in Inr (case at_index s \<lfloor>fst r * real (length s)\<rfloor> of
                          Some c \<Rightarrow> JStr [c]
                        | None \<Rightarrow> JUndefined,
                        snd r))
           | JUndefined \<Rightarrow> Inl TypeError
           | JNull \<Rightarrow> Inl TypeError
           | JNum x \<Rightarrow> Inr (JUndefined, snd (Math_random w))
           | JBool b \<Rightarrow> Inr (JUndefined, snd (Math_random w))
           | JObj kvs \<Rightarrow> Inl Unmodelled)"

text \<open>\<^verbatim>\<open>FileValueGenerator.read\<close> and \<^verbatim>\<open>FileValueGenerator.generate\<close> (lines 67-83).
  \<open>None\<close> is the argument \<^verbatim>\<open>undefined\<close>.\<close>

definition FileValueGenerator_read :: "env \<Rightarrow> string option \<Rightarrow> error + json" where
  "FileValueGenerator_read e file =
     (case file of
        None \<Rightarrow> Inr (JStr [])
      | Some f \<Rightarrow>
          if f = [] then Inr (JStr [])
          else case readTextFileSync e f of
                 None \<Rightarrow> Inl IOError
               | Some content \<Rightarrow> Inr (JStr content))"

definition FileValueGenerator_generate :: "env \<Rightarrow> json \<Rightarrow> nat \<Rightarrow> world \<Rightarrow> error + json \<times> world" where
  "FileValueGenerator_generate e options a w =
     (let filenames = filename_arrays w a
      in if filenames = [] then Inr (JNull, w)
         else if truthy (get_prop options ''unique'') then
           (case FileValueGenerator_read e (Some (last filenames)) of
              Inl err \<Rightarrow> Inl err
            | Inr v \<Rightarrow> Inr (v, w\<lparr>filename_arrays := (filename_arrays w)(a := butlast filenames)\<rparr>))
         else
           (let r = Math_random w
            in case FileValueGenerator_read e
                      (at_index filenames \<lfloor>fst r * real (length filenames)\<rfloor>) of
                 Inl err \<Rightarrow> Inl err
               | Inr v \<Rightarrow> Inr (v, snd r)))"

text \<open>\<^verbatim>\<open>ReferenceValueGenerator.generate\<close> (lines 92-100). An array, even an empty one, is
  truthy.\<close>

definition ReferenceValueGenerator_generate :: "json \<Rightarrow> bool \<Rightarrow> world \<Rightarrow> error + json \<times> world" where
  "ReferenceValueGenerator_generate options vt w =
     (if \<not> vt \<or> options = JNull \<or> options = JUndefined then Inl TypeError
      else case valueTrackers w
                  (js_or (get_prop options ''otherGenerator'') (get_prop options ''other'')) of
             None \<Rightarrow> Inr (JNull, w)
           | Some tracker \<Rightarrow>
               (case tracker (get_prop options ''property'') of
                  None \<Rightarrow> Inr (JNull, w)
                | Some valuesToPickFrom \<Rightarrow>
                    (let r = Math_random w
                     in Inr (case at_index valuesToPickFrom
                                    \<lfloor>fst r * real (length valuesToPickFrom)\<rfloor> of
                               Some v \<Rightarrow> v
                             | None \<Rightarrow> JUndefined,
                             snd r))))"

text \<open>\<^verbatim>\<open>randomBetween\<close> (lines 103-105). \<^verbatim>\<open>min\<close> and \<^verbatim>\<open>max\<close> are numbers or absent
  (\<^verbatim>\<open>MinMax\<close>); \<^verbatim>\<open>true\<close> counts as 1 in arithmetic; other operands would be coerced.\<close>

definition number_of :: "json \<Rightarrow> real option" where
  "number_of v = (case v of JNum x \<Rightarrow> Some x | JBool True \<Rightarrow> Some 1 | _ \<Rightarrow> None)"

definition randomBetween :: "json \<Rightarrow> world \<Rightarrow> error + int \<times> world" where
  "randomBetween minmax w =
     (case (number_of (js_or (get_prop minmax ''min'') (JNum 0)),
            number_of (js_or (get_prop minmax ''max'') (JNum 0))) of
        (Some mn, Some mx) \<Rightarrow> (let r = Math_random w in Inr (\<lfloor>mn + fst r * mx\<rfloor>, snd r))
      | _ \<Rightarrow> Inl Unmodelled)"

text \<open>\<^verbatim>\<open>CsvValueGenerator.generate\<close> (lines 175-199): the three loops, then the rendering.\<close>

fun csv_header :: "nat \<Rightarrow> world \<Rightarrow> string list \<times> world" where
  "csv_header 0 w = ([], w)"
| "csv_header (Suc n) w =
     (let nm = randomName w; rest = csv_header n (snd nm) in (fst nm # fst rest, snd rest))"

definition Math_trunc :: "real \<Rightarrow> int" where
  "Math_trunc x = (if 0 \<le> x then \<lfloor>x\<rfloor> else \<lceil>x\<rceil>)"

fun csv_row :: "nat \<Rightarrow> world \<Rightarrow> real list \<times> world" where
  "csv_row 0 w = ([], w)"
| "csv_row (Suc n) w =
     (let r = Math_random w; rest = csv_row n (snd r)
      in (of_int (Math_trunc (fst r * 1000)) # fst rest, snd rest))"

fun csv_data :: "nat \<Rightarrow> nat \<Rightarrow> world \<Rightarrow> real list list \<times> world" where
  "csv_data 0 columns w = ([], w)"
| "csv_data (Suc n) columns w =
     (let row = csv_row columns w; rest = csv_data n columns (snd row)
      in (fst row # fst rest, snd rest))"

definition CsvValueGenerator_generate :: "env \<Rightarrow> json \<Rightarrow> world \<Rightarrow> error + json \<times> world" where
  "CsvValueGenerator_generate e options w =
     (case randomBetween (js_or (get_prop options ''columns'')
                            (JObj [(''min'', JNum 1), (''max'', JNum 5)])) w of
        Inl err \<Rightarrow> Inl err
      | Inr (columns, w1) \<Rightarrow>
          (case randomBetween (js_or (get_prop options ''rows'')
                                 (JObj [(''min'', JNum 1), (''max'', JNum 50)])) w1 of
             Inl err \<Rightarrow> Inl err
           | Inr (rows, w2) \<Rightarrow>
               (let header = csv_header (nat columns) w2;
                    data = csv_data (nat rows) (nat columns) (snd header)
                in Inr (JStr (join_strings [CHR 0x0A]
                                (join_strings '','' (fst header)
                                 # map (\<lambda>row. join_strings '','' (map (num_str e) row)) (fst data))),
                        snd data))))"

text \<open>\<^verbatim>\<open>JavaScriptValueGenerator\<close> (lines 202-271): the seven snippets, by index, with the
  variable name filled in. \<open>nl\<close> is a line break and \<open>dq\<close> a double quote.\<close>

definition nl :: string where "nl = [CHR 0x0A]"

definition dq :: string where "dq = [CHR 0x22]"

definition snippet :: "nat \<Rightarrow> string \<Rightarrow> string" where
  "snippet i foo =
     (if i = 0 then
        nl @ ''var '' @ foo @ '' = 123;'' @ nl @ ''if ('' @ foo @ '' > 100) {'' @ nl
        @ ''  Notification.show('' @ dq @ ''foo'' @ dq @ '', '' @ dq @ ''Foo was >100'' @ dq @ '');''
        @ nl @ ''}''
      else if i = 1 then
        nl @ ''for (var '' @ foo @ '' = 0; '' @ foo @ '' < 10; '' @ foo @ ''++) {'' @ nl
        @ ''  Log.info('' @ foo @ '');'' @ nl @ ''}''
      else if i = 2 then
        nl @ ''var '' @ foo @ '' = 0;'' @ nl @ ''while ('' @ foo @ '' < 10) {'' @ nl
        @ ''  Log.info('' @ foo @ '');'' @ nl @ ''  '' @ foo @ ''++;'' @ nl @ ''}''
      else if i = 3 then
        nl @ ''function '' @ foo @ ''(a, b) {'' @ nl @ ''  return a + b;'' @ nl @ ''}''
      else if i = 4 then
        nl @ ''var '' @ foo @ '' = {'' @ nl @ ''  a: 123,'' @ nl @ ''  b: '' @ dq @ ''foo'' @ dq
        @ nl @ ''}''
      else if i = 5 then
        nl @ ''var '' @ foo @ '' = new Field('' @ dq @ ''**/a/b/c'' @ dq @ '') '' @ nl
        @ foo @ ''.click();''
      else
        nl @ ''var '' @ foo @ '' = new Field('' @ dq @ ''**/a/b/c'' @ dq @ '') '' @ nl
        @ ''var value = '' @ foo @ ''.read();'')"

definition JavaScriptValueGenerator_generate :: "world \<Rightarrow> error + json \<times> world" where
  "JavaScriptValueGenerator_generate w =
     (let r = Math_random w; i = \<lfloor>fst r * 7\<rfloor>
      in if 0 \<le> i \<and> i < 7
         then (let foo = randomVarName (snd r) in Inr (JStr (snippet (nat i) (fst foo)), snd foo))
         else Inl TypeError)"

section \<open>Dotted paths: lodash's \<^verbatim>\<open>get\<close> and \<^verbatim>\<open>set\<close>\<close>

text \<open>
  The program reads and writes records by dotted path with \<^verbatim>\<open>get\<close> and \<^verbatim>\<open>set\<close> of lodash, a
  library it imports; they are written here after lodash 4.17 (\<^verbatim>\<open>castPath\<close>, \<^verbatim>\<open>baseGet\<close>,
  \<^verbatim>\<open>assignValue\<close>, \<^verbatim>\<open>baseSet\<close>). For a path without brackets, \<^verbatim>\<open>castPath\<close> yields the segments
  between the dots; a path with a bracket follows lodash's bracket syntax, which is not
  modelled. (\<^verbatim>\<open>castPath\<close> keeps a dotted path whole when the object has a property of that very
  name. The records of the program are built by \<^verbatim>\<open>set\<close> from the empty object, segment by
  segment, so none of their properties has a dot in its name.)
\<close>

fun split_dots :: "string \<Rightarrow> string list" where
  "split_dots [] = [[]]"
| "split_dots (c # cs) =
     (if c = CHR ''.'' then [] # split_dots cs
      else (c # hd (split_dots cs)) # tl (split_dots cs))"

definition castPath :: "string \<Rightarrow> error + string list" where
  "castPath s =
     (if CHR ''['' \<in> set s \<or> CHR '']'' \<in> set s then Inl Unmodelled else Inr (split_dots s))"

text \<open>\<^verbatim>\<open>isObject\<close> and \<^verbatim>\<open>isIndex\<close> of lodash.\<close>

definition isObject :: "json \<Rightarrow> bool" where
  "isObject v = (case v of JObj kvs \<Rightarrow> True | JArr xs \<Rightarrow> True | _ \<Rightarrow> False)"

definition isIndex :: "string \<Rightarrow> bool" where
  "isIndex s =
     (s \<noteq> [] \<and> list_all is_digit s \<and> (s = ''0'' \<or> hd s \<noteq> CHR ''0'')
      \<and> parse_nat s < 9007199254740991)"

text \<open>The names an object can inherit. Reading one of them from an object that has no such
  property of its own yields a function or an object of the runtime.\<close>

definition inherited :: "string list" where
  "inherited =
     [''constructor'', ''__proto__'', ''toString'', ''toLocaleString'', ''valueOf'',
      ''hasOwnProperty'', ''isPrototypeOf'', ''propertyIsEnumerable'', ''__defineGetter__'',
      ''__defineSetter__'', ''__lookupGetter__'', ''__lookupSetter__'']"

text \<open>\<^verbatim>\<open>object[key]\<close> on an object, an array or a string (\<open>None\<close>: not modelled).\<close>

definition member :: "json \<Rightarrow> string \<Rightarrow> json option" where
  "member obj key =
     (case obj of
        JObj kvs \<Rightarrow>
          (case map_of kvs key of
             Some v \<Rightarrow> Some v
           | None \<Rightarrow> if key \<in> set inherited then None else Some JUndefined)
      | JArr xs \<Rightarrow>
          (case array_index key of
             Some i \<Rightarrow> Some (if i < length xs then xs ! i else JUndefined)
           | None \<Rightarrow> if key = ''length'' then Some (JNum (real (length xs))) else None)
      | JStr s \<Rightarrow>
          (case array_index key of
             Some i \<Rightarrow> Some (if i < length s then JStr [s ! i] else JUndefined)
           | None \<Rightarrow> if key = ''length'' then Some (JNum (real (length s))) else None)
      | _ \<Rightarrow> None)"

text \<open>\<^verbatim>\<open>baseGet\<close>: the walk stops with \<^verbatim>\<open>undefined\<close> at \<^verbatim>\<open>null\<close> or \<^verbatim>\<open>undefined\<close>.\<close>

fun baseGet :: "json \<Rightarrow> string list \<Rightarrow> error + json" where
  "baseGet obj [] = Inr obj"
| "baseGet obj (key # path) =
     (if obj = JNull \<or> obj = JUndefined then Inr JUndefined
      else case member obj key of
             None \<Rightarrow> Inl Unmodelled
           | Some v \<Rightarrow> baseGet v path)"

definition lodash_get :: "json \<Rightarrow> json \<Rightarrow> error + json" where
  "lodash_get obj path =
     (case path of
        JStr s \<Rightarrow> (case castPath s of Inl err \<Rightarrow> Inl err | Inr p \<Rightarrow> baseGet obj p)
      | _ \<Rightarrow> Inl Unmodelled)"

text \<open>\<^verbatim>\<open>assignValue\<close>: \<^verbatim>\<open>nested[key] = newValue\<close>. Writing past the end of an array leaves
  holes, which read as \<^verbatim>\<open>undefined\<close>.\<close>

definition assignValue :: "json \<Rightarrow> string \<Rightarrow> json \<Rightarrow> error + json" where
  "assignValue nested key newValue =
     (case nested of
        JObj kvs \<Rightarrow> Inr (JObj (obj_put kvs key newValue))
      | JArr xs \<Rightarrow>
          (case array_index key of
             Some i \<Rightarrow>
               Inr (JArr (if i < length xs then xs[i := newValue]
                          else xs @ replicate (i - length xs) JUndefined @ [newValue]))
           | None \<Rightarrow> Inl Unmodelled)
      | _ \<Rightarrow> Inl Unmodelled)"

text \<open>\<^verbatim>\<open>baseSet\<close>, returning the container \<^verbatim>\<open>nested\<close> as the assignments leave it. A missing
  or non-object value on the way is replaced by a new array when the next segment is an
  index and by a new object otherwise.\<close>

fun baseSet :: "json \<Rightarrow> string list \<Rightarrow> json \<Rightarrow> error + json" where
  "baseSet nested [] v = Inr nested"
| "baseSet nested (key # path) v =
     (if key = ''__proto__'' \<or> key = ''constructor'' \<or> key = ''prototype'' then Inr nested
      else if path = [] then assignValue nested key v
      else case member nested key of
             None \<Rightarrow> Inl Unmodelled
           | Some objValue \<Rightarrow>
               (case baseSet (if isObject objValue then objValue
                              else if isIndex (hd path) then JArr [] else JObj [])
                       path v of
                  Inl err \<Rightarrow> Inl err
                | Inr newValue \<Rightarrow> assignValue nested key newValue))"

definition lodash_set :: "json \<Rightarrow> string \<Rightarrow> json \<Rightarrow> error + json" where
  "lodash_set obj path v =
     (if obj = JNull \<or> obj = JUndefined \<or> \<not> isObject obj then Inr obj
      else case castPath path of
             Inl err \<Rightarrow> Inl err
           | Inr p \<Rightarrow> baseSet obj p v)"

text \<open>\<^verbatim>\<open>a + b\<close> when one operand is a string, an array or an object: concatenation. Two
  operands that are numbers, booleans, \<^verbatim>\<open>null\<close> or \<^verbatim>\<open>undefined\<close> are added as numbers, which
  is not modelled.\<close>

definition js_plus :: "env \<Rightarrow> json \<Rightarrow> json \<Rightarrow> error + json" where
  "js_plus e a b =
     (if (case a of JStr s \<Rightarrow> True | JArr xs \<Rightarrow> True | JObj kvs \<Rightarrow> True | _ \<Rightarrow> False)
         \<or> (case b of JStr s \<Rightarrow> True | JArr xs \<Rightarrow> True | JObj kvs \<Rightarrow> True | _ \<Rightarrow> False)
      then Inr (JStr (toStr e a @ toStr e b))
      else Inl Unmodelled)"

subsection \<open>\<^verbatim>\<open>generate\<close>\<close>

text \<open>Measures for the termination of \<^verbatim>\<open>generate\<close>: a bound on the generators that a
  specification can give rise to, and the weight of a generator with the specifications of
  its prefix and suffix, from which \<^verbatim>\<open>maybeGenerate\<close> creates generators at each call.\<close>

definition spec_weight :: "json \<Rightarrow> nat" where
  "spec_weight j = 6 ^ size j"

fun gweight :: "vgen \<Rightarrow> nat" where
  "gweight (JoinValueGenerator options vt el) =
     3 + spec_weight (get_prop options ''prefix'') + spec_weight (get_prop options ''suffix'')
       + gweight el"
| "gweight (CopyValueGenerator options vt) =
     3 + spec_weight (get_prop options ''prefix'') + spec_weight (get_prop options ''suffix'')"
| "gweight g = 1"

lemma spec_weight_pos: "1 \<le> spec_weight j"
  by (simp add: spec_weight_def)

lemma spec_weight_prop: "spec_weight (get_prop (JObj kvs) k) * 6 \<le> spec_weight (JObj kvs)"
proof -
  have "size (get_prop (JObj kvs) k) < size (JObj kvs)" by (rule size_get_prop)
  then have "Suc (size (get_prop (JObj kvs) k)) \<le> size (JObj kvs)" by simp
  then have "(6::nat) ^ Suc (size (get_prop (JObj kvs) k)) \<le> 6 ^ size (JObj kvs)"
    by (rule power_increasing) simp
  then show ?thesis by (simp add: spec_weight_def mult.commute)
qed

lemma createValueGenerator_kinds:
  assumes "createValueGenerator e nm options vt w = Inr (g, w')"
  shows "gweight g = 1
     \<or> (\<exists>el w1. g = JoinValueGenerator options vt el \<and>
           createValueGenerator e (get_prop (get_prop options ''element'') ''generator'')
             (get_prop options ''element'') vt w = Inr (el, w1))
     \<or> (\<exists>b. g = CopyValueGenerator options b)"
  using assms
  by (subst (asm) createValueGenerator.simps)
     (auto simp: Let_def FileValueGenerator_new_def
           split: if_splits sum.splits option.splits json.splits)

lemma create_weight:
  "createValueGenerator e (get_prop j ''generator'') j vt w = Inr (g, w') \<Longrightarrow> gweight g \<le> spec_weight j"
proof (induction j arbitrary: g w w' rule: measure_induct_rule[of size])
  case (less j)
  show ?case
  proof (cases j)
    case (JObj kvs)
    let ?el = "get_prop j ''element''"
    have el: "spec_weight ?el * 6 \<le> spec_weight j"
      and pre: "spec_weight (get_prop j ''prefix'') * 6 \<le> spec_weight j"
      and suf: "spec_weight (get_prop j ''suffix'') * 6 \<le> spec_weight j"
      unfolding JObj by (rule spec_weight_prop)+
    have big: "6 \<le> spec_weight j"
      using el spec_weight_pos[of ?el] by linarith
    have szel: "size ?el < size j" unfolding JObj by (rule size_get_prop)
    have join: "gweight (JoinValueGenerator j vt el') \<le> spec_weight j"
      if "createValueGenerator e (get_prop ?el ''generator'') ?el vt w = Inr (el', w1)" for el' w1
    proof -
      from less.IH[OF szel that] have "gweight el' \<le> spec_weight ?el" .
      with el pre suf spec_weight_pos[of ?el] show ?thesis by simp
    qed
    have copy: "gweight (CopyValueGenerator j b) \<le> spec_weight j" for b
      using pre suf big by simp
    have one: "gweight g \<le> spec_weight j" if "gweight g = 1"
      using that big by simp
    from createValueGenerator_kinds[OF less.prems] show ?thesis
      using join copy one by blast
  next
    case JUndefined
    with less.prems show ?thesis
      by (auto simp: createValueGenerator.simps[of _ JUndefined] spec_weight_def)
  next
    case JNull
    with less.prems show ?thesis
      by (auto simp: createValueGenerator.simps[of _ JUndefined] spec_weight_def)
  next
    case (JBool b)
    with less.prems show ?thesis
      by (auto simp: createValueGenerator.simps[of _ JUndefined] spec_weight_def)
  next
    case (JNum x)
    with less.prems show ?thesis
      by (auto simp: createValueGenerator.simps[of _ JUndefined] spec_weight_def)
  next
    case (JStr s)
    with less.prems show ?thesis
      by (auto simp: createValueGenerator.simps[of _ JUndefined] spec_weight_def)
  next
    case (JArr xs)
    with less.prems show ?thesis
      by (auto simp: createValueGenerator.simps[of _ JUndefined] spec_weight_def)
  qed
qed

text \<open>
  \<^verbatim>\<open>generate\<close> of each class, \<^verbatim>\<open>maybeGenerate\<close> (main.ts, lines 107-119) and the \<^verbatim>\<open>for\<close>
  loop of \<^verbatim>\<open>JoinValueGenerator.generate\<close> (lines 139-141). \<open>current\<close> is the record built so
  far. In \<^verbatim>\<open>prefix + join(...) + suffix\<close> the middle operand is a string, so both additions
  concatenate.
\<close>

function generate :: "env \<Rightarrow> vgen \<Rightarrow> json \<Rightarrow> world \<Rightarrow> error + json \<times> world"
  and maybeGenerate :: "env \<Rightarrow> json \<Rightarrow> bool \<Rightarrow> json \<Rightarrow> world \<Rightarrow> error + json \<times> world"
  and generate_elements :: "env \<Rightarrow> vgen \<Rightarrow> json \<Rightarrow> nat \<Rightarrow> world \<Rightarrow> error + json list \<times> world"
where
  "generate e (DefaultValueGenerator options) current w = Inr (options, w)"
| "generate e (NameValueGenerator options) current w =
     (let n = randomName w in Inr (JStr (fst n), snd n))"
| "generate e IdValueGenerator current w =
     (let u = ulid w in Inr (JStr (fst u), snd u))"
| "generate e (EnumValueGenerator options) current w = EnumValueGenerator_generate options w"
| "generate e (FileValueGenerator options a) current w = FileValueGenerator_generate e options a w"
| "generate e (ReferenceValueGenerator options vt) current w =
     ReferenceValueGenerator_generate options vt w"
| "generate e (JoinValueGenerator options vt el) current w =
     (case randomBetween (js_or (get_prop options ''count'')
                            (JObj [(''min'', JNum 1), (''max'', JNum 10)])) w of
        Inl err \<Rightarrow> Inl err
      | Inr (cnt, w1) \<Rightarrow>
          (case generate_elements e el current (nat cnt) w1 of
             Inl err \<Rightarrow> Inl err
           | Inr (elements, w2) \<Rightarrow>
               (case maybeGenerate e (get_prop options ''prefix'') vt current w2 of
                  Inl err \<Rightarrow> Inl err
                | Inr (pre, w3) \<Rightarrow>
                    (case maybeGenerate e (get_prop options ''suffix'') vt current w3 of
                       Inl err \<Rightarrow> Inl err
                     | Inr (suf, w4) \<Rightarrow>
                         Inr (JStr (toStr e pre
                                    @ join e elements (js_or (get_prop options ''separator'') (JStr []))
                                    @ toStr e suf),
                              w4)))))"
| "generate e (CopyValueGenerator options vt) current w =
     (case maybeGenerate e (get_prop options ''prefix'') vt current w of
        Inl err \<Rightarrow> Inl err
      | Inr (pre, w1) \<Rightarrow>
          (case lodash_get current (get_prop options ''from'') of
             Inl err \<Rightarrow> Inl err
           | Inr copied \<Rightarrow>
               (case js_plus e pre copied of
                  Inl err \<Rightarrow> Inl err
                | Inr front \<Rightarrow>
                    (case maybeGenerate e (get_prop options ''suffix'') vt current w1 of
                       Inl err \<Rightarrow> Inl err
                     | Inr (suf, w2) \<Rightarrow>
                         (case js_plus e front suf of
                            Inl err \<Rightarrow> Inl err
                          | Inr result \<Rightarrow> Inr (result, w2))))))"
| "generate e (CsvValueGenerator options) current w = CsvValueGenerator_generate e options w"
| "generate e (JavaScriptValueGenerator options) current w = JavaScriptValueGenerator_generate w"
| "maybeGenerate e options vt current w =
     (case options of
        JStr s \<Rightarrow> Inr (JStr s, w)
      | _ \<Rightarrow>
          (case createValueGenerator e (get_prop options ''generator'') options vt w of
             Inl err \<Rightarrow> Inl err
           | Inr (g, w1) \<Rightarrow>
               (case generate e g current w1 of
                  Inl err \<Rightarrow> Inl err
                | Inr (v, w2) \<Rightarrow> Inr (js_or v (JStr []), w2))))"
| "generate_elements e el current 0 w = Inr ([], w)"
| "generate_elements e el current (Suc n) w =
     (case generate e el current w of
        Inl err \<Rightarrow> Inl err
      | Inr (v, w1) \<Rightarrow>
          (case generate_elements e el current n w1 of
             Inl err \<Rightarrow> Inl err
           | Inr (vs, w2) \<Rightarrow> Inr (v # vs, w2)))"
  by pat_completeness auto
termination
proof (relation "measures
    [\<lambda>x. case x of
            Inl (e, g, current, w) \<Rightarrow> 2 * gweight g
          | Inr (Inl (e, options, vt, current, w)) \<Rightarrow> 2 * spec_weight options + 1
          | Inr (Inr (e, el, current, n, w)) \<Rightarrow> 2 * gweight el + 1,
     \<lambda>x. case x of
            Inr (Inr (e, el, current, n, w)) \<Rightarrow> n
          | _ \<Rightarrow> 0]", goal_cases)
  case 1
  show ?case by simp
qed (auto dest!: create_weight simp del: get_prop.simps)

declare maybeGenerate.simps [simp del]

section \<open>Template flattener\<close>

text \<open>
  \<^verbatim>\<open>flatten\<close> (main.ts, lines 369-392). \<open>step\<close> is the inner function: it walks the keys of
  one object in order and threads \<^verbatim>\<open>output\<close>, the object the leaves are written to.
  \<open>prev\<close> is \<open>None\<close> for the call \<^verbatim>\<open>step(target)\<close>. \<^verbatim>\<open>currentDepth\<close> is passed along and
  never read, so it is left out.
\<close>

definition newKey :: "string option \<Rightarrow> string \<Rightarrow> string" where
  "newKey prev key =
     (case prev of
        None \<Rightarrow> key
      | Some p \<Rightarrow> if p \<noteq> [] then p @ ''.'' @ key else key)"

fun step :: "(string \<times> json) list \<Rightarrow> string option \<Rightarrow> (string \<times> json) list \<Rightarrow> (string \<times> json) list" where
  "step [] prev output = output"
| "step ((key, v) # rest) prev output =
     (if truthy (get_prop v ''generator'')
      then step rest prev (obj_put output (newKey prev key) v)
      else case v of
             JObj kvs \<Rightarrow>
               if kvs \<noteq> [] then step rest prev (step kvs (Some (newKey prev key)) output)
               else step rest prev (obj_put output (newKey prev key) v)
           | _ \<Rightarrow> step rest prev (obj_put output (newKey prev key) v))"

definition flatten :: "json \<Rightarrow> error + (string \<times> json) list" where
  "flatten target =
     (case own_entries target of
        Inl e \<Rightarrow> Inl e
      | Inr kvs \<Rightarrow> Inr (step kvs None []))"

section \<open>Record generators and the execution planner\<close>

text \<open>The class \<^verbatim>\<open>Generator\<close>. \<^verbatim>\<open>flatTemplate\<close>, \<^verbatim>\<open>valueGenerators\<close> and \<^verbatim>\<open>dependencies\<close> are
  kept in insertion order, as a \<^verbatim>\<open>Map\<close> and an object keep them.\<close>

record Generator =
  name :: string
  iterations :: nat
  flatTemplate :: "(string \<times> json) list"
  valueGenerators :: "(string \<times> vgen) list"
  dependencies :: "(json \<times> json) list"

text \<open>
  \<^verbatim>\<open>g.name == d\<close> (main.ts, line 409), where \<^verbatim>\<open>g.name\<close> is a string and \<^verbatim>\<open>d\<close> a key of
  \<^verbatim>\<open>dependencies\<close>. The map is declared \<^verbatim>\<open>Map<string, string>\<close>; a reference leaf without a
  producer name leaves the key \<^verbatim>\<open>undefined\<close> or \<^verbatim>\<open>null\<close> in it. Against a string \<^verbatim>\<open>==\<close> is
  string equality, and no string equals \<^verbatim>\<open>null\<close> or \<^verbatim>\<open>undefined\<close>. Against a number or a
  boolean the name is first converted to a number, and an object or an array is first
  converted to a primitive value, which can throw: these comparisons are not followed.
\<close>

fun loose_equals :: "string \<Rightarrow> json \<Rightarrow> error + bool" where
  "loose_equals n (JStr s) = Inr (n = s)"
| "loose_equals n JNull = Inr False"
| "loose_equals n JUndefined = Inr False"
| "loose_equals n (JNum x) = Inl Unmodelled"
| "loose_equals n (JBool b) = Inl Unmodelled"
| "loose_equals n (JArr xs) = Inl Unmodelled"
| "loose_equals n (JObj kvs) = Inl Unmodelled"

text \<open>\<^verbatim>\<open>sortedGenerators.some((g) => g.name == d)\<close>, which stops at the first generator that
  bears the name, and \<^verbatim>\<open>[...keys].every((d) => ...)\<close>, which stops at the first key that no
  generator bears.\<close>

fun some_named :: "Generator list \<Rightarrow> json \<Rightarrow> error + bool" where
  "some_named [] d = Inr False"
| "some_named (g # gs) d =
     (case loose_equals (name g) d of
        Inl err \<Rightarrow> Inl err
      | Inr found \<Rightarrow> if found then Inr True else some_named gs d)"

fun every_named :: "Generator list \<Rightarrow> json list \<Rightarrow> error + bool" where
  "every_named sortedGenerators [] = Inr True"
| "every_named sortedGenerators (d # ds) =
     (case some_named sortedGenerators d of
        Inl err \<Rightarrow> Inl err
      | Inr found \<Rightarrow> if found then every_named sortedGenerators ds else Inr False)"

text \<open>The test of \<^verbatim>\<open>executionOrder\<close>, lines 406-411.\<close>

definition satisfied :: "Generator list \<Rightarrow> Generator \<Rightarrow> error + bool" where
  "satisfied sortedGenerators generator =
     (if dependencies generator = [] then Inr True
      else every_named sortedGenerators (map fst (dependencies generator)))"

text \<open>The \<^verbatim>\<open>for\<close> loop (lines 403-417): the first generator of the array that can be placed,
  and the array after \<^verbatim>\<open>splice(i, 1)\<close>; \<open>None\<close> when the scan ends with \<^verbatim>\<open>generatorFound\<close>
  false.\<close>

fun scan :: "Generator list \<Rightarrow> Generator list \<Rightarrow> error + (Generator \<times> Generator list) option" where
  "scan sortedGenerators [] = Inr None"
| "scan sortedGenerators (g # gs) =
     (case satisfied sortedGenerators g of
        Inl err \<Rightarrow> Inl err
      | Inr ok \<Rightarrow>
          if ok then Inr (Some (g, gs))
          else (case scan sortedGenerators gs of
                  Inl err \<Rightarrow> Inl err
                | Inr None \<Rightarrow> Inr None
                | Inr (Some (h, rest)) \<Rightarrow> Inr (Some (h, g # rest))))"

lemma scan_length: "scan s gs = Inr (Some (g, rest)) \<Longrightarrow> length rest < length gs"
  by (induction gs arbitrary: g rest) (auto split: if_splits option.splits sum.splits)

text \<open>The line \<^verbatim>\<open>console.warn\<close> prints for one generator: the message and the map.\<close>

definition warning :: "Generator \<Rightarrow> string \<times> (json \<times> json) list" where
  "warning generator =
     (''Unmet dependency detected for generator '' @ name generator @ ''. Dependencies: '',
      dependencies generator)"

text \<open>The \<^verbatim>\<open>while\<close> loop (lines 401-429), returning \<^verbatim>\<open>sortedGenerators\<close> and the warnings
  printed.\<close>

function executionOrder_loop ::
  "Generator list \<Rightarrow> Generator list
    \<Rightarrow> error + Generator list \<times> (string \<times> (json \<times> json) list) list" where
  "executionOrder_loop sortedGenerators generators =
     (if generators = [] then Inr (sortedGenerators, [])
      else case scan sortedGenerators generators of
             Inl err \<Rightarrow> Inl err
           | Inr (Some (g, rest)) \<Rightarrow> executionOrder_loop (sortedGenerators @ [g]) rest
           | Inr None \<Rightarrow> Inr (sortedGenerators @ generators, map warning generators))"
  by pat_completeness auto
termination
  by (relation "measure (\<lambda>(s, gs). length gs)") (auto simp: scan_length)

declare executionOrder_loop.simps [simp del]

definition executionOrder ::
  "Generator list \<Rightarrow> error + Generator list \<times> (string \<times> (json \<times> json) list) list" where
  "executionOrder generators = executionOrder_loop [] generators"

subsection \<open>The planner on names\<close>

text \<open>A key that is compared with a name as a string: a string, \<^verbatim>\<open>null\<close> or \<^verbatim>\<open>undefined\<close>.
  \<open>name_keys g\<close>: every key of the dependency map of \<open>g\<close> is one.\<close>

definition name_key :: "json \<Rightarrow> bool" where
  "name_key d = (case d of JStr s \<Rightarrow> True | JNull \<Rightarrow> True | JUndefined \<Rightarrow> True | _ \<Rightarrow> False)"

definition name_keys :: "Generator \<Rightarrow> bool" where
  "name_keys g = list_all name_key (map fst (dependencies g))"

text \<open>For such keys the test, the scan and the loop cannot fail, and they compute what
  follows: \<open>placeable s g\<close> says that every key of \<open>g\<close> is the name of a generator of \<open>s\<close>,
  \<open>pick\<close> is the scan and \<open>plan\<close> the loop. They serve the proofs about \<^verbatim>\<open>executionOrder\<close>.\<close>

definition placeable :: "Generator list \<Rightarrow> Generator \<Rightarrow> bool" where
  "placeable s g =
     (dependencies g = [] \<or>
      list_all (\<lambda>d. list_ex (\<lambda>h. JStr (name h) = d) s) (map fst (dependencies g)))"

fun pick :: "Generator list \<Rightarrow> Generator list \<Rightarrow> (Generator \<times> Generator list) option" where
  "pick s [] = None"
| "pick s (g # gs) =
     (if placeable s g then Some (g, gs)
      else case pick s gs of
             None \<Rightarrow> None
           | Some (h, rest) \<Rightarrow> Some (h, g # rest))"

lemma pick_length: "pick s gs = Some (g, rest) \<Longrightarrow> length rest < length gs"
  by (induction gs arbitrary: g rest) (auto split: if_splits option.splits)

function plan ::
  "Generator list \<Rightarrow> Generator list \<Rightarrow> Generator list \<times> (string \<times> (json \<times> json) list) list" where
  "plan s gs =
     (if gs = [] then (s, [])
      else case pick s gs of
             Some (g, rest) \<Rightarrow> plan (s @ [g]) rest
           | None \<Rightarrow> (s @ gs, map warning gs))"
  by pat_completeness auto
termination
  by (relation "measure (\<lambda>(s, gs). length gs)") (auto simp: pick_length)

declare plan.simps [simp del]

text \<open>What a result of the loop looks like when every generator was placed by a
  successful scan: each generator found its dependencies among the generators before it, and
  everything that precedes it in the input \<open>gs\<close> was placed earlier or could not be placed
  at that moment.\<close>

definition placed_in_order :: "Generator list \<Rightarrow> Generator list \<Rightarrow> bool" where
  "placed_in_order gs res =
     (\<forall>pre g post. res = pre @ g # post \<longrightarrow>
        placeable pre g \<and>
        (\<exists>a b. gs = a @ g # b \<and> (\<forall>h\<in>set a. h \<in> set pre \<or> \<not> placeable pre h)))"


section \<open>The record generator and the driver\<close>

text \<open>\<^verbatim>\<open>Map.prototype.set\<close>: the value of an existing key is replaced where it stands.\<close>

definition map_set :: "('k \<times> 'v) list \<Rightarrow> 'k \<Rightarrow> 'v \<Rightarrow> ('k \<times> 'v) list" where
  "map_set m k v =
     (if k \<in> fst ` set m then map (\<lambda>kv. if fst kv = k then (k, v) else kv) m else m @ [(k, v)])"

text \<open>The test of lines 340-343 of the constructor. When it is reached,
  \<^verbatim>\<open>createValueGenerator\<close> has returned, so \<^verbatim>\<open>generator\<close> is a string or absent.\<close>

definition is_reference :: "json \<Rightarrow> bool" where
  "is_reference options =
     (case get_prop options ''generator'' of
        JStr s \<Rightarrow> toLowerCase s = ''reference'' \<or> toLowerCase s = ''ref''
      | _ \<Rightarrow> False)"

text \<open>The producer and the property that a reference leaf names (lines 344-347).\<close>

definition producer :: "json \<Rightarrow> json" where
  "producer options = js_or (get_prop options ''otherGenerator'') (get_prop options ''other'')"

text \<open>The reference leaves whose registration is followed. \<^verbatim>\<open>dependencies\<close> and the trackers
  are declared with string keys. A \<^verbatim>\<open>Map\<close> tells two objects or arrays apart even when their
  contents are equal, and the planner compares a name with a key by \<^verbatim>\<open>==\<close>, which coerces a
  number or a boolean; so the constructor is followed when the producer is a string or absent
  (\<^verbatim>\<open>null\<close>, \<^verbatim>\<open>undefined\<close>) and the property is not an object or an array.\<close>

definition followed :: "json \<Rightarrow> bool" where
  "followed options =
     ((case producer options of JStr s \<Rightarrow> True | JNull \<Rightarrow> True | JUndefined \<Rightarrow> True | _ \<Rightarrow> False)
      \<and> (case get_prop options ''property'' of JObj kvs \<Rightarrow> False | JArr xs \<Rightarrow> False | _ \<Rightarrow> True))"

text \<open>The loop of the constructor of \<^verbatim>\<open>Generator\<close> (lines 331-349) over the entries of the
  flattened template, with the two maps it fills.\<close>

fun construct :: "env \<Rightarrow> (string \<times> json) list \<Rightarrow> (string \<times> vgen) list \<Rightarrow> (json \<times> json) list
    \<Rightarrow> world \<Rightarrow> error + (string \<times> vgen) list \<times> (json \<times> json) list \<times> world" where
  "construct e [] vgs deps w = Inr (vgs, deps, w)"
| "construct e ((key, options) # rest) vgs deps w =
     (case createValueGenerator e (get_prop options ''generator'') options True w of
        Inl err \<Rightarrow> Inl err
      | Inr (valueGenerator, w1) \<Rightarrow>
          if is_reference options \<and> \<not> followed options then Inl Unmodelled
          else construct e rest (map_set vgs key valueGenerator)
                 (if is_reference options
                  then map_set deps (producer options) (get_prop options ''property'')
                  else deps)
                 w1)"

definition Generator_new :: "env \<Rightarrow> string \<Rightarrow> nat \<Rightarrow> json \<Rightarrow> world \<Rightarrow> error + Generator \<times> world" where
  "Generator_new e nm its template w =
     (case flatten template of
        Inl err \<Rightarrow> Inl err
      | Inr flat \<Rightarrow>
          (case construct e flat [] [] w of
             Inl err \<Rightarrow> Inl err
           | Inr (vgs, deps, w1) \<Rightarrow>
               Inr (\<lparr>name = nm, iterations = its, flatTemplate = flat, valueGenerators = vgs,
                     dependencies = deps\<rparr>, w1)))"


definition tracks :: "ValueTracker \<Rightarrow> json \<Rightarrow> bool" where
  "tracks t property = (t property \<noteq> None)"

definition add :: "ValueTracker \<Rightarrow> json \<Rightarrow> json \<Rightarrow> ValueTracker" where
  "add t property v =
     (case t property of
        Some vs \<Rightarrow> t(property \<mapsto> vs @ [v])
      | None \<Rightarrow> t(property \<mapsto> [v]))"

text \<open>\<^verbatim>\<open>Generator.generate\<close> (lines 351-366): the loop over the keys of the flattened
  template, with the record \<^verbatim>\<open>output\<close> built so far.\<close>

fun generate_keys :: "env \<Rightarrow> Generator \<Rightarrow> string list \<Rightarrow> json \<Rightarrow> world \<Rightarrow> error + json \<times> world" where
  "generate_keys e g [] out w = Inr (out, w)"
| "generate_keys e g (key # keys) out w =
     (case (case map_of (valueGenerators g) key of
              None \<Rightarrow> Inr (JUndefined, w)
            | Some valueGenerator \<Rightarrow> generate e valueGenerator out w) of
        Inl err \<Rightarrow> Inl err
      | Inr (v, w1) \<Rightarrow>
          (let w2 = (case valueTrackers w1 (JStr (name g)) of
                       None \<Rightarrow> w1
                     | Some valueTracker \<Rightarrow>
                         if tracks valueTracker (JStr key)
                         then w1\<lparr>valueTrackers :=
                                   (valueTrackers w1)(JStr (name g) \<mapsto> add valueTracker (JStr key) v)\<rparr>
                         else w1)
           in case lodash_set out key v of
                Inl err \<Rightarrow> Inl err
              | Inr out' \<Rightarrow> generate_keys e g keys out' w2))"

definition Generator_generate :: "env \<Rightarrow> Generator \<Rightarrow> world \<Rightarrow> error + json \<times> world" where
  "Generator_generate e g w = generate_keys e g (map fst (flatTemplate g)) (JObj []) w"



fun generate_records :: "env \<Rightarrow> Generator \<Rightarrow> nat \<Rightarrow> world \<Rightarrow> error + json list \<times> world" where
  "generate_records e g 0 w = Inr ([], w)"
| "generate_records e g (Suc n) w =
     (case Generator_generate e g w of
        Inl err \<Rightarrow> Inl err
      | Inr (record, w1) \<Rightarrow>
          (case generate_records e g n w1 of
             Inl err \<Rightarrow> Inl err
           | Inr (records, w2) \<Rightarrow> Inr (record # records, w2)))"

fun run :: "env \<Rightarrow> Generator list \<Rightarrow> world \<Rightarrow> error + (string \<times> json list) list \<times> world" where
  "run e [] w = Inr ([], w)"
| "run e (g # gs) w =
     (case generate_records e g (iterations g) w of
        Inl err \<Rightarrow> Inl err
      | Inr (records, w1) \<Rightarrow>
          (case run e gs w1 of
             Inl err \<Rightarrow> Inl err
           | Inr (files, w2) \<Rightarrow> Inr ((name g, records) # files, w2)))"


section \<open>Vocabulary of the claims\<close>

text \<open>The names of the \<^verbatim>\<open>case\<close> labels of \<^verbatim>\<open>createValueGenerator\<close>.\<close>

definition builtin_kinds :: "string list" where
  "builtin_kinds = [''name'', ''id'', ''enum'', ''file'', ''reference'', ''ref'', ''join'', ''copy'',
                    ''csv'', ''javascript'']"

text \<open>The values that stand for "no value": \<^verbatim>\<open>null\<close> and \<^verbatim>\<open>undefined\<close>.\<close>

definition null_equivalent :: "json \<Rightarrow> bool" where
  "null_equivalent v = (v = JNull \<or> v = JUndefined)"

text \<open>A producer and a path are tracked when the producer has a tracker and the tracker
  tracks the path.\<close>

definition tracked :: "(json \<Rightarrow> ValueTracker option) \<Rightarrow> json \<Rightarrow> json \<Rightarrow> bool" where
  "tracked trackers p x = (case trackers p of None \<Rightarrow> False | Some t \<Rightarrow> tracks t x)"



section \<open>Vocabulary of the round trip\<close>

text \<open>The leaves of a document in its own traversal order, as the specification describes
  flattening: each with its path, the list of the keys that lead to it. An object is entered
  unless it is empty or its \<^verbatim>\<open>generator\<close> is truthy. \<open>root_leaves\<close> are the leaves of a whole
  template, given by its entries, and \<open>dotted\<close> is the path joined with dots.\<close>

fun leaf_paths :: "json \<Rightarrow> (string list \<times> json) list" where
  "leaf_paths (JObj kvs) =
     (if kvs = [] \<or> truthy (get_prop (JObj kvs) ''generator'') then [([], JObj kvs)]
      else concat (map (\<lambda>kv. map (\<lambda>leaf. (fst kv # fst leaf, snd leaf)) (leaf_paths (snd kv))) kvs))"
| "leaf_paths v = [([], v)]"

definition root_leaves :: "(string \<times> json) list \<Rightarrow> (string list \<times> json) list" where
  "root_leaves kvs =
     concat (map (\<lambda>kv. map (\<lambda>leaf. (fst kv # fst leaf, snd leaf)) (leaf_paths (snd kv))) kvs)"

definition dotted :: "string list \<Rightarrow> string" where
  "dotted p = join_strings ''.'' p"

text \<open>The key that \<^verbatim>\<open>step\<close> computes for a path below \<open>prev\<close>.\<close>

fun path_key :: "string option \<Rightarrow> string list \<Rightarrow> string" where
  "path_key prev [] = (case prev of None \<Rightarrow> [] | Some p \<Rightarrow> p)"
| "path_key prev (k # p) = path_key (Some (newKey prev k)) p"


text \<open>A key that lodash's \<^verbatim>\<open>set\<close> takes for one plain property name: not empty, without dot or
  bracket, not an array index, and not a name that every object inherits or that \<^verbatim>\<open>set\<close>
  refuses. A plain template is a nested object without generator specifications whose keys,
  at every level, are distinct and plain; arrays and scalars are its leaves.\<close>

definition plain_key :: "string \<Rightarrow> bool" where
  "plain_key k =
     (k \<noteq> [] \<and> CHR ''.'' \<notin> set k \<and> CHR ''['' \<notin> set k \<and> CHR '']'' \<notin> set k
      \<and> \<not> isIndex k \<and> k \<notin> set inherited \<and> k \<noteq> ''prototype'')"

fun plain :: "json \<Rightarrow> bool" where
  "plain (JObj kvs) =
     (\<not> truthy (get_prop (JObj kvs) ''generator'') \<and> distinct (map fst kvs)
      \<and> list_all (\<lambda>kv. plain_key (fst kv) \<and> plain (snd kv)) kvs)"
| "plain v = True"

definition plain_path :: "string list \<Rightarrow> bool" where
  "plain_path p = (p \<noteq> [] \<and> list_all plain_key p)"

text \<open>\<^verbatim>\<open>baseSet\<close> for each leaf in turn.\<close>

fun set_all :: "json \<Rightarrow> (string list \<times> json) list \<Rightarrow> error + json" where
  "set_all out [] = Inr out"
| "set_all out (leaf # leaves) =
     (case baseSet out (fst leaf) (snd leaf) of
        Inl err \<Rightarrow> Inl err
      | Inr out' \<Rightarrow> set_all out' leaves)"

section \<open>Example inputs\<close>

text \<open>A record generator with the given name and dependency map; the planner reads nothing
  else of a generator.\<close>

definition planned :: "string \<Rightarrow> (json \<times> json) list \<Rightarrow> Generator" where
  "planned n deps =
     \<lparr>name = n, iterations = 1, flatTemplate = [], valueGenerators = [], dependencies = deps\<rparr>"

text \<open>A state at the start of a run with the given outcomes of \<^verbatim>\<open>Math.random()\<close>, and a
  file system with one directory of three files and a subdirectory. In it \<^verbatim>\<open>shuffle\<close>
  happens to reverse its argument.\<close>

definition tape :: "(nat \<Rightarrow> real) \<Rightarrow> world" where
  "tape outcomes =
     \<lparr>random_outcomes = outcomes, random_calls = 0,
      randomName_outcomes = (\<lambda>n. ''Ada''), randomName_calls = 0,
      randomVarName_outcomes = (\<lambda>n. ''x''), randomVarName_calls = 0,
      ulid_outcomes = (\<lambda>n. ''01ARZ3NDEKTSV4RRFFQ69G5FAV''), ulid_calls = 0,
      valueTrackers = Map.empty, filename_arrays = (\<lambda>a. []), allocated = 0\<rparr>"

definition folder :: env where
  "folder =
     \<lparr>readDirSync = (\<lambda>d. if d = ''docs''
                          then Some [(''a.txt'', True), (''sub'', False), (''b.txt'', True), (''c.txt'', True)]
                          else None),
      readTextFileSync = (\<lambda>f. if f = ''docs/a.txt'' then Some ''alpha''
                               else if f = ''docs/b.txt'' then Some ''beta''
                               else if f = ''docs/c.txt'' then Some ''gamma''
                               else None),
      lodash_shuffle = (\<lambda>xs outcomes calls. (rev xs, calls)),
      number_toString = (\<lambda>x. [])\<rparr>"

definition value_of :: "error + 'a \<times> world \<Rightarrow> error + 'a" where
  "value_of r = map_sum id fst r"




section \<open>The execution planner: proofs\<close>

lemma pick_Some:
  "pick s gs = Some (g, rest) \<Longrightarrow>
     \<exists>pre post. gs = pre @ g # post \<and> rest = pre @ post \<and> placeable s g \<and> (\<forall>h\<in>set pre. \<not> placeable s h)"
proof (induction gs arbitrary: g rest)
  case Nil
  then show ?case by simp
next
  case (Cons a gs)
  show ?case
  proof (cases "placeable s a")
    case True
    with Cons.prems have "g = a" "rest = gs" by auto
    with True show ?thesis by (intro exI[of _ "[]"] exI[of _ gs]) auto
  next
    case False
    with Cons.prems obtain r where r: "pick s gs = Some (g, r)" "rest = a # r"
      by (auto split: option.splits)
    from Cons.IH[OF r(1)] obtain pre post where
      "gs = pre @ g # post" "r = pre @ post" "placeable s g" "\<forall>h\<in>set pre. \<not> placeable s h"
      by blast
    with False r(2) show ?thesis
      by (intro exI[of _ "a # pre"] exI[of _ post]) auto
  qed
qed

lemma pick_None: "pick s gs = None \<longleftrightarrow> (\<forall>h\<in>set gs. \<not> placeable s h)"
  by (induction gs) (auto split: option.splits)

lemma plan_Nil: "plan s [] = (s, [])"
  by (simp add: plan.simps)

lemma plan_Some:
  "pick s gs = Some (g, rest) \<Longrightarrow> plan s gs = plan (s @ [g]) rest"
  by (subst plan.simps) auto

lemma plan_None:
  "pick s gs = None \<Longrightarrow> plan s gs = (s @ gs, map warning gs)"
  by (subst plan.simps) (cases gs; simp)

lemma plan_mset: "mset (fst (plan s gs)) = mset s + mset gs"
proof (induction s gs rule: plan.induct)
  case (1 s gs)
  show ?case
  proof (cases "pick s gs")
    case None
    then show ?thesis by (simp add: plan_None)
  next
    case (Some p)
    obtain g rest where p: "p = (g, rest)" by (cases p)
    from Some p have sc: "pick s gs = Some (g, rest)" by simp
    then have ne: "gs \<noteq> []" by auto
    from pick_Some[OF sc] obtain pre post where
      sp: "gs = pre @ g # post" "rest = pre @ post" by blast
    have "mset (fst (plan (s @ [g]) rest)) = mset (s @ [g]) + mset rest"
      using "1.IH"[OF ne sc refl] .
    then have "mset (fst (plan s gs)) = mset (s @ [g]) + mset rest"
      by (simp only: plan_Some[OF sc])
    with sp show ?thesis by simp
  qed
qed

lemma placed_in_order_snoc:
  assumes "placed_in_order gs s" "placeable s g"
    and "gs = a @ g # b" "\<forall>h\<in>set a. h \<in> set s \<or> \<not> placeable s h"
  shows "placed_in_order gs (s @ [g])"
  unfolding placed_in_order_def
proof (intro allI impI)
  fix pre x post
  assume eq: "s @ [g] = pre @ x # post"
  show "placeable pre x \<and> (\<exists>a b. gs = a @ x # b \<and> (\<forall>h\<in>set a. h \<in> set pre \<or> \<not> placeable pre h))"
  proof (cases post rule: rev_cases)
    case Nil
    with eq have "pre = s" "x = g" by auto
    with assms show ?thesis by blast
  next
    case (snoc post' y)
    with eq have "s = pre @ x # post'" by auto
    with assms(1) show ?thesis unfolding placed_in_order_def by blast
  qed
qed

lemma exists_placeable:
  assumes ne: "gs \<noteq> []"
    and present: "\<forall>g\<in>set gs. \<forall>d\<in>fst ` set (dependencies g). \<exists>h\<in>set s \<union> set gs. d = JStr (name h)"
    and rank: "\<forall>g\<in>set gs. \<forall>d\<in>fst ` set (dependencies g). (rank d :: nat) < rank (JStr (name g))"
  shows "\<exists>g\<in>set gs. placeable s g"
proof -
  define m where "m = (LEAST n. \<exists>g\<in>set gs. rank (JStr (name g)) = n)"
  from ne obtain g0 where "g0 \<in> set gs" by (cases gs) auto
  then have ex: "\<exists>n. \<exists>g\<in>set gs. rank (JStr (name g)) = n" by blast
  from LeastI_ex[OF ex] obtain g where g: "g \<in> set gs" "rank (JStr (name g)) = m"
    unfolding m_def by blast
  have least: "\<And>h. h \<in> set gs \<Longrightarrow> m \<le> rank (JStr (name h))"
    unfolding m_def by (rule Least_le) blast
  have "\<forall>d\<in>fst ` set (dependencies g). \<exists>h\<in>set s. JStr (name h) = d"
  proof
    fix d assume d: "d \<in> fst ` set (dependencies g)"
    from present g(1) d obtain h where h: "h \<in> set s \<union> set gs" "d = JStr (name h)" by blast
    from rank g d have "rank d < m" by blast
    with h(2) least[of h] have "h \<notin> set gs" by auto
    with h show "\<exists>h\<in>set s. JStr (name h) = d" by blast
  qed
  then have "placeable s g"
    by (auto simp: placeable_def list_all_iff list_ex_iff)
  with g(1) show ?thesis by blast
qed

lemma plan_acyclic:
  assumes "distinct gs0"
    and "gs = filter (\<lambda>x. x \<notin> set s) gs0"
    and "placed_in_order gs0 s"
    and "\<forall>g\<in>set gs. \<forall>d\<in>fst ` set (dependencies g). \<exists>h\<in>set s \<union> set gs. d = JStr (name h)"
    and "\<forall>g\<in>set gs. \<forall>d\<in>fst ` set (dependencies g). (rank d :: nat) < rank (JStr (name g))"
  shows "placed_in_order gs0 (fst (plan s gs)) \<and> snd (plan s gs) = []"
  using assms
proof (induction s gs rule: plan.induct)
  case (1 s gs)
  show ?case
  proof (cases "gs = []")
    case True
    with "1.prems" show ?thesis by (simp add: plan_Nil)
  next
    case ne: False
    from exists_placeable[OF ne "1.prems"(4,5)] have "pick s gs \<noteq> None"
      by (simp add: pick_None)
    then obtain g rest where sc: "pick s gs = Some (g, rest)" by (cases "pick s gs") auto
    from pick_Some[OF sc] obtain pre post where
      sp: "gs = pre @ g # post" "rest = pre @ post" "placeable s g" "\<forall>h\<in>set pre. \<not> placeable s h"
      by blast
    have dgs: "distinct gs" using "1.prems"(1,2) by simp
    with sp(1) have gnot: "g \<notin> set pre" "g \<notin> set post" by auto
    have "g \<in> set gs" using sp(1) by simp
    then have "g \<in> set (filter (\<lambda>x. x \<notin> set s) gs0)" using "1.prems"(2) by simp
    then have gin: "g \<in> set gs0" "g \<notin> set s" by auto
    from gin(1) obtain a b where ab: "gs0 = a @ g # b" by (meson split_list)
    with "1.prems"(1) have gab: "g \<notin> set a" "g \<notin> set b" by auto
    have "filter (\<lambda>x. x \<notin> set s) a @ g # filter (\<lambda>x. x \<notin> set s) b = pre @ g # post"
      using "1.prems"(2) sp(1) ab gin(2) by simp
    moreover have "g \<notin> set (filter (\<lambda>x. x \<notin> set s) a)" using gab by simp
    ultimately have fa: "filter (\<lambda>x. x \<notin> set s) a = pre" "filter (\<lambda>x. x \<notin> set s) b = post"
      using gnot by (metis append_Cons_eq_iff)+
    have "\<forall>h\<in>set a. h \<in> set s \<or> \<not> placeable s h"
    proof
      fix h assume "h \<in> set a"
      show "h \<in> set s \<or> \<not> placeable s h"
      proof (cases "h \<in> set s")
        case False
        with \<open>h \<in> set a\<close> fa(1) have "h \<in> set pre" by auto
        with sp(4) show ?thesis by blast
      qed simp
    qed
    from placed_in_order_snoc[OF "1.prems"(3) sp(3) ab this]
    have p': "placed_in_order gs0 (s @ [g])" .
    have f': "rest = filter (\<lambda>x. x \<notin> set (s @ [g])) gs0"
    proof -
      have "filter (\<lambda>x. x \<notin> set (s @ [g])) gs0 = filter (\<lambda>x. x \<noteq> g) (filter (\<lambda>x. x \<notin> set s) gs0)"
        by (auto intro: filter_cong)
      also have "\<dots> = filter (\<lambda>x. x \<noteq> g) (pre @ g # post)" using "1.prems"(2) sp(1) by simp
      also have "\<dots> = pre @ post"
      proof -
        have "filter (\<lambda>x. x \<noteq> g) pre = pre" "filter (\<lambda>x. x \<noteq> g) post = post"
          using gnot by (auto intro: filter_True)
        then show ?thesis by simp
      qed
      finally show ?thesis using sp(2) by simp
    qed
    have pres': "\<forall>x\<in>set rest. \<forall>d\<in>fst ` set (dependencies x). \<exists>h\<in>set (s @ [g]) \<union> set rest. d = JStr (name h)"
      using "1.prems"(4) sp(1,2) by auto
    have rank': "\<forall>x\<in>set rest. \<forall>d\<in>fst ` set (dependencies x). rank d < rank (JStr (name x))"
      using "1.prems"(5) sp(1,2) by auto
    from "1.IH"[OF ne sc refl "1.prems"(1) f' p' pres' rank']
    show ?thesis by (simp only: plan_Some[OF sc])
  qed
qed



lemma loose_equals_name_key: "name_key d \<Longrightarrow> loose_equals n d = Inr (JStr n = d)"
  by (cases d) (auto simp: name_key_def)

lemma some_named_name_key:
  "name_key d \<Longrightarrow> some_named s d = Inr (list_ex (\<lambda>h. JStr (name h) = d) s)"
  by (induction s) (simp_all add: loose_equals_name_key)

lemma every_named_name_key:
  "list_all name_key ds \<Longrightarrow>
     every_named s ds = Inr (list_all (\<lambda>d. list_ex (\<lambda>h. JStr (name h) = d) s) ds)"
  by (induction ds) (simp_all add: some_named_name_key)

lemma satisfied_placeable: "name_keys g \<Longrightarrow> satisfied s g = Inr (placeable s g)"
  by (simp add: satisfied_def placeable_def name_keys_def every_named_name_key)

lemma scan_pick: "list_all name_keys gs \<Longrightarrow> scan s gs = Inr (pick s gs)"
  by (induction gs) (auto simp: satisfied_placeable split: option.splits)


lemma executionOrder_loop_plan:
  "list_all name_keys gs \<Longrightarrow> executionOrder_loop s gs = Inr (plan s gs)"
proof (induction s gs rule: plan.induct)
  case (1 s gs)
  show ?case
  proof (cases "gs = []")
    case True
    then show ?thesis by (simp add: executionOrder_loop.simps plan.simps)
  next
    case ne: False
    show ?thesis
    proof (cases "pick s gs")
      case None
      with ne "1.prems" show ?thesis
        by (simp add: executionOrder_loop.simps[of s gs] plan.simps[of s gs] scan_pick)
    next
      case (Some p)
      obtain g rest where p: "p = (g, rest)" by (cases p)
      from Some p have sc: "pick s gs = Some (g, rest)" by simp
      from pick_Some[OF sc] obtain pre post where "gs = pre @ g # post" "rest = pre @ post"
        by blast
      with "1.prems" have "list_all name_keys rest" by simp
      from "1.IH"[OF ne sc refl this] ne sc "1.prems" show ?thesis
        by (simp add: executionOrder_loop.simps[of s gs] plan.simps[of s gs] scan_pick)
    qed
  qed
qed

lemma present_name_keys:
  "\<forall>g\<in>set gs. \<forall>d\<in>fst ` set (dependencies g). \<exists>h\<in>set gs. d = JStr (name h) \<Longrightarrow>
     list_all name_keys gs"
  by (fastforce simp: list_all_iff name_keys_def name_key_def)

lemma planned_simps [simp]:
  "name (planned n deps) = n"
  "dependencies (planned n deps) = deps"
  by (simp_all add: planned_def)

text \<open>
  Claim C2, as amended. Let the generators have pairwise distinct names, let every key of
  every dependency map be the name of a generator of the input, and let there be no dependency
  cycle (\<open>rank\<close> decreases strictly along every dependency, which is possible exactly when the
  finite dependency graph has no cycle). Then \<^verbatim>\<open>executionOrder\<close> returns a permutation of its
  input and prints no warning; in the result every generator stands after each generator whose
  name is a key of its dependency map; and the generator placed at each position is the first
  one, in the order of the input, that is not yet placed and can be placed.
\<close>

theorem executionOrder_respects_dependencies:
  fixes rank :: "json \<Rightarrow> nat"
  assumes names: "distinct (map name gs)"
    and present: "\<forall>g\<in>set gs. \<forall>d\<in>fst ` set (dependencies g). \<exists>h\<in>set gs. d = JStr (name h)"
    and acyclic: "\<forall>g\<in>set gs. \<forall>d\<in>fst ` set (dependencies g). rank d < rank (JStr (name g))"
  shows "\<exists>res. executionOrder gs = Inr (res, []) \<and> mset res = mset gs \<and>
    (\<forall>i j. i < length gs \<and> j < length gs \<and>
        JStr (name (res ! j)) \<in> fst ` set (dependencies (res ! i))
        \<longrightarrow> j < i) \<and>
    (\<forall>pre g post. res = pre @ g # post \<longrightarrow>
        (\<exists>a b. gs = a @ g # b \<and> (\<forall>h\<in>set a. h \<in> set pre \<or> satisfied pre h = Inr False)))"
proof -
  define res where "res = fst (plan [] gs)"
  have keys: "list_all name_keys gs" using present by (rule present_name_keys)
  have ms: "mset res = mset gs"
    unfolding res_def by (simp add: plan_mset)
  from names have dgs: "distinct gs" by (simp add: distinct_map)
  have "placed_in_order gs (fst (plan [] gs)) \<and> snd (plan [] gs) = []"
    using present acyclic
    by (intro plan_acyclic[where rank = rank] dgs) (auto simp: placed_in_order_def)
  then have po: "placed_in_order gs res" and nw: "snd (plan [] gs) = []"
    unfolding res_def by simp_all
  from nw have ex: "executionOrder gs = Inr (res, [])"
    unfolding executionOrder_def res_def executionOrder_loop_plan[OF keys]
    by (cases "plan [] gs") simp
  have len: "length res = length gs" using ms by (metis size_mset)
  have dn: "distinct (map name res)"
    using names ms by (metis distinct_map mset_eq_setD mset_map mset_eq_imp_distinct_iff)
  have ord: "j < i" if "i < length gs" "j < length gs"
    "JStr (name (res ! j)) \<in> fst ` set (dependencies (res ! i))" for i j
  proof -
    from that(1) len have "res = take i res @ res ! i # drop (Suc i) res"
      by (simp add: id_take_nth_drop)
    with po have "placeable (take i res) (res ! i)" unfolding placed_in_order_def by blast
    with that(3) have "\<exists>h\<in>set (take i res). JStr (name h) = JStr (name (res ! j))"
      by (force simp: placeable_def list_all_iff list_ex_iff)
    then obtain h where h: "h \<in> set (take i res)" "name h = name (res ! j)"
      by auto
    from h(1) obtain k where k: "k < i" "k < length res" "h = res ! k"
      by (auto simp: in_set_conv_nth)
    with h(2) have "map name res ! k = map name res ! j" using that(2) len by simp
    moreover have "k < length (map name res)" "j < length (map name res)"
      using k(2) that(2) len by simp_all
    ultimately have "k = j" using dn nth_eq_iff_index_eq by blast
    with k(1) show ?thesis by simp
  qed
  have first: "\<exists>a b. gs = a @ g # b \<and> (\<forall>h\<in>set a. h \<in> set pre \<or> satisfied pre h = Inr False)"
    if "res = pre @ g # post" for pre g post
  proof -
    from po have "res = pre @ g # post \<longrightarrow>
        placeable pre g \<and>
        (\<exists>a b. gs = a @ g # b \<and> (\<forall>h\<in>set a. h \<in> set pre \<or> \<not> placeable pre h))"
      unfolding placed_in_order_def by (elim allE)
    with that obtain a b where
      ab: "gs = a @ g # b" "\<forall>h\<in>set a. h \<in> set pre \<or> \<not> placeable pre h"
      by blast
    have "h \<in> set pre \<or> satisfied pre h = Inr False" if "h \<in> set a" for h
    proof -
      from that ab(1) keys have "name_keys h" by (simp add: list_all_iff)
      with ab(2) that show ?thesis by (auto simp: satisfied_placeable)
    qed
    with ab(1) show ?thesis by blast
  qed
  show ?thesis
  proof (rule exI[of _ res], intro conjI allI impI)
    show "executionOrder gs = Inr (res, [])" by (rule ex)
    show "mset res = mset gs" by (rule ms)
  next
    fix i j
    assume "i < length gs \<and> j < length gs \<and>
        JStr (name (res ! j)) \<in> fst ` set (dependencies (res ! i))"
    then show "j < i" using ord by blast
  next
    fix pre g post assume "res = pre @ g # post"
    then show "\<exists>a b. gs = a @ g # b \<and> (\<forall>h\<in>set a. h \<in> set pre \<or> satisfied pre h = Inr False)"
      by (rule first)
  qed
qed

text \<open>The templates A (no dependency), B (depends on A) and C (depends on B), declared in
  the order C, B, A, are planned as A, B, C.\<close>

theorem executionOrder_respects_dependencies_witness:
  "executionOrder [planned ''C'' [(JStr ''B'', JStr ''id'')],
                   planned ''B'' [(JStr ''A'', JStr ''id'')],
                   planned ''A'' []]
     = Inr ([planned ''A'' [], planned ''B'' [(JStr ''A'', JStr ''id'')],
             planned ''C'' [(JStr ''B'', JStr ''id'')]], [])
   \<and> (\<exists>res. executionOrder [planned ''C'' [(JStr ''B'', JStr ''id'')],
                   planned ''B'' [(JStr ''A'', JStr ''id'')],
                   planned ''A'' []] = Inr (res, [])
         \<and> mset res = mset [planned ''C'' [(JStr ''B'', JStr ''id'')],
                             planned ''B'' [(JStr ''A'', JStr ''id'')],
                             planned ''A'' []])"
proof -
  let ?gs = "[planned ''C'' [(JStr ''B'', JStr ''id'')],
              planned ''B'' [(JStr ''A'', JStr ''id'')],
              planned ''A'' []]"
  let ?rank = "\<lambda>d. if d = JStr ''A'' then 0 else if d = JStr ''B'' then 1 else (2::nat)"
  have h1: "distinct (map name ?gs)" by simp
  have h2: "\<forall>g\<in>set ?gs. \<forall>d\<in>fst ` set (dependencies g). \<exists>h\<in>set ?gs. d = JStr (name h)"
    by simp
  have h3: "\<forall>g\<in>set ?gs. \<forall>d\<in>fst ` set (dependencies g). ?rank d < ?rank (JStr (name g))"
    by simp
  have "executionOrder ?gs
     = Inr ([planned ''A'' [], planned ''B'' [(JStr ''A'', JStr ''id'')],
             planned ''C'' [(JStr ''B'', JStr ''id'')]], [])"
    by (simp add: executionOrder_def executionOrder_loop.simps satisfied_def)
  moreover from executionOrder_respects_dependencies[OF h1 h2 h3]
  obtain res where "executionOrder ?gs = Inr (res, [])" "mset res = mset ?gs"
    by (elim exE conjE)
  ultimately show ?thesis by (intro conjI exI[of _ res]) simp_all
qed

text \<open>
  Claim C2, as stated, does not ask for distinct names, and fails without them. The input
  \<open>c, a, a', b\<close>, where \<open>c\<close> depends on \<open>a\<close>, the second generator named \<open>a\<close> depends on \<open>b\<close>, and
  nothing else depends on anything, has every producer present and no cycle; \<open>c\<close> is placed
  as soon as the first \<open>a\<close> is, before the second generator named \<open>a\<close>.
\<close>

theorem executionOrder_duplicate_names_counterexample:
  "\<not> (\<forall>gs. (\<forall>g\<in>set gs. \<forall>d\<in>fst ` set (dependencies g). \<exists>h\<in>set gs. d = JStr (name h)) \<and>
           (\<exists>rank :: json \<Rightarrow> nat.
               \<forall>g\<in>set gs. \<forall>d\<in>fst ` set (dependencies g). rank d < rank (JStr (name g)))
       \<longrightarrow> (\<exists>res warnings. executionOrder gs = Inr (res, warnings) \<and>
              (\<forall>i j. i < length gs \<and> j < length gs \<and>
                 JStr (name (res ! j)) \<in> fst ` set (dependencies (res ! i))
               \<longrightarrow> j < i)))"
proof
  let ?gs = "[planned ''c'' [(JStr ''a'', JStr ''id'')], planned ''a'' [],
              planned ''a'' [(JStr ''b'', JStr ''id'')], planned ''b'' []]"
  let ?res = "[planned ''a'' [], planned ''c'' [(JStr ''a'', JStr ''id'')], planned ''b'' [],
        planned ''a'' [(JStr ''b'', JStr ''id'')]]"
  let ?rank = "\<lambda>d. if d = JStr ''b'' then 0 else if d = JStr ''a'' then 1 else (2::nat)"
  assume a: "\<forall>gs. (\<forall>g\<in>set gs. \<forall>d\<in>fst ` set (dependencies g). \<exists>h\<in>set gs. d = JStr (name h)) \<and>
           (\<exists>rank :: json \<Rightarrow> nat.
               \<forall>g\<in>set gs. \<forall>d\<in>fst ` set (dependencies g). rank d < rank (JStr (name g)))
       \<longrightarrow> (\<exists>res warnings. executionOrder gs = Inr (res, warnings) \<and>
              (\<forall>i j. i < length gs \<and> j < length gs \<and>
                 JStr (name (res ! j)) \<in> fst ` set (dependencies (res ! i))
               \<longrightarrow> j < i))"
  have h2: "\<forall>g\<in>set ?gs. \<forall>d\<in>fst ` set (dependencies g). \<exists>h\<in>set ?gs. d = JStr (name h)"
    by simp
  have "\<forall>g\<in>set ?gs. \<forall>d\<in>fst ` set (dependencies g). ?rank d < ?rank (JStr (name g))"
    by simp
  then have h3: "\<exists>rank :: json \<Rightarrow> nat.
      \<forall>g\<in>set ?gs. \<forall>d\<in>fst ` set (dependencies g). rank d < rank (JStr (name g))"
    by (rule exI[of _ ?rank])
  have res: "executionOrder ?gs = Inr (?res, [])"
    by (simp add: executionOrder_def executionOrder_loop.simps satisfied_def)
  have "\<exists>res warnings. executionOrder ?gs = Inr (res, warnings) \<and>
              (\<forall>i j. i < length ?gs \<and> j < length ?gs \<and>
                 JStr (name (res ! j)) \<in> fst ` set (dependencies (res ! i))
               \<longrightarrow> j < i)"
    by (rule mp[OF a[THEN spec, of ?gs] conjI[OF h2 h3]])
  then obtain r w where e: "executionOrder ?gs = Inr (r, w)"
    and o: "\<forall>i j. i < length ?gs \<and> j < length ?gs \<and>
                 JStr (name (r ! j)) \<in> fst ` set (dependencies (r ! i))
               \<longrightarrow> j < i"
    by (elim exE conjE)
  from e res have r: "r = ?res" by simp
  have "1 < length ?gs \<and> 3 < length ?gs \<and>
              JStr (name (r ! 3)) \<in> fst ` set (dependencies (r ! 1))
            \<longrightarrow> (3::nat) < 1"
    by (rule o[THEN spec, THEN spec])
  then show False unfolding r by simp
qed


section \<open>The flattener: proofs\<close>

lemma step_append: "step (xs @ ys) prev out = step ys prev (step xs prev out)"
proof (induction xs prev out rule: step.induct)
  case (1 prev out)
  show ?case by simp
next
  case (2 key v rest prev out)
  then show ?case by (cases v) simp_all
qed

text \<open>
  What the code does with a value whose \<^verbatim>\<open>generator\<close> property is truthy: reached at any depth
  (\<open>prev\<close>) and at any position among the keys of its parent, it is written to the output
  once, whole, under its own path, and the traversal goes on with the keys after it: nothing
  inside it is visited.
\<close>

lemma step_generator_leaf:
  assumes "truthy (get_prop v ''generator'')"
  shows "step (pre @ (key, v) # post) prev out =
           step post prev (obj_put (step pre prev out) (newKey prev key) v)
         \<and> flatten (JObj [(key, v)]) = Inr [(key, v)]"
  using assms by (simp add: step_append flatten_def obj_put_def newKey_def split: option.splits)

text \<open>\<^verbatim>\<open>{"a": {"generator": "id"}}\<close> flattens to one leaf at \<^verbatim>\<open>a\<close>; so does a join
  specification, whose \<^verbatim>\<open>element\<close> is a nested object.\<close>

lemma step_generator_leaf_examples:
  "flatten (JObj [(''a'', JObj [(''generator'', JStr ''id'')])])
     = Inr [(''a'', JObj [(''generator'', JStr ''id'')])]
   \<and> flatten (JObj [(''a'', JObj [(''generator'', JStr ''join''),
                                  (''element'', JObj [(''generator'', JStr ''id'')])])])
     = Inr [(''a'', JObj [(''generator'', JStr ''join''),
                          (''element'', JObj [(''generator'', JStr ''id'')])])]"
  using step_generator_leaf[of "JObj [(''generator'', JStr ''id'')]" "[]" "''a''" "[]" None "[]"]
    step_generator_leaf[of "JObj [(''generator'', JStr ''join''),
                                  (''element'', JObj [(''generator'', JStr ''id'')])]"
       "[]" "''a''" "[]" None "[]"]
  by simp

text \<open>
  Claim C4 does not hold of the code. The claim, and the comment of line 377
  (\<^verbatim>\<open>If value has a generator propery it should just be used as is\<close>), speak of every object
  that has the key \<^verbatim>\<open>generator\<close>. The test of line 378 is \<^verbatim>\<open>value?.generator\<close>, the truthiness of the property:
  an object whose \<^verbatim>\<open>generator\<close> is the empty string (or \<^verbatim>\<open>null\<close>, \<^verbatim>\<open>false\<close>, \<^verbatim>\<open>0\<close>) fails it,
  is an ordinary non-empty object for line 383, and is entered. \<^verbatim>\<open>{"a": {"generator": ""}}\<close>
  flattens to one leaf at \<^verbatim>\<open>a.generator\<close>, and to none at \<^verbatim>\<open>a\<close>.
\<close>

theorem flatten_falsy_generator_entered:
  "flatten (JObj [(''a'', JObj [(''generator'', JStr '''')])]) = Inr [(''a.generator'', JStr '''')]"
  by (simp add: flatten_def obj_put_def newKey_def array_index_def is_digit_def)
section \<open>The value generators: proofs\<close>

lemma value_of_simps [simp]: "value_of (Inr (v, w)) = Inr v" "value_of (Inl err) = Inl err"
  by (simp_all add: value_of_def)

text \<open>
  Claim C7. For a kind name that is absent, or a string that is none of the builtin names
  once lower-cased, \<^verbatim>\<open>createValueGenerator\<close> returns the default generator and changes
  nothing; every call of its \<^verbatim>\<open>generate\<close>, in any state, returns the options and leaves the
  state as it was.
\<close>

theorem createValueGenerator_default:
  assumes "nm = JUndefined \<or> (\<exists>s. nm = JStr s \<and> toLowerCase s \<notin> set builtin_kinds)"
  shows "createValueGenerator e nm options vt w = Inr (DefaultValueGenerator options, w)
       \<and> (\<forall>current w'. generate e (DefaultValueGenerator options) current w' = Inr (options, w'))"
  using assms
  by (subst createValueGenerator.simps) (auto simp: builtin_kinds_def Let_def)

theorem createValueGenerator_default_witness:
  "createValueGenerator folder (JStr ''Banana'')
      (JObj [(''generator'', JStr ''Banana''), (''x'', JNum 1)]) True (tape (\<lambda>n. 0))
     = Inr (DefaultValueGenerator (JObj [(''generator'', JStr ''Banana''), (''x'', JNum 1)]),
            tape (\<lambda>n. 0))
   \<and> createValueGenerator folder JUndefined (JNum 7) True (tape (\<lambda>n. 0))
     = Inr (DefaultValueGenerator (JNum 7), tape (\<lambda>n. 0))
   \<and> generate folder (DefaultValueGenerator (JNum 7)) (JObj []) (tape (\<lambda>n. 0))
     = Inr (JNum 7, tape (\<lambda>n. 0))"
  using createValueGenerator_default[of "JStr ''Banana''" folder
      "JObj [(''generator'', JStr ''Banana''), (''x'', JNum 1)]" True "tape (\<lambda>n. 0)"]
    createValueGenerator_default[of JUndefined folder "JNum 7" True "tape (\<lambda>n. 0)"]
  by (simp add: builtin_kinds_def toLowerCase_def lower_char_def)

lemma floor_index:
  fixes r :: real
  assumes "0 \<le> r" "r < 1" "0 < n"
  shows "0 \<le> \<lfloor>r * real n\<rfloor>" "\<lfloor>r * real n\<rfloor> < int n"
proof -
  from assms show "0 \<le> \<lfloor>r * real n\<rfloor>" by simp
  from assms have "r * real n < real n" by simp
  then show "\<lfloor>r * real n\<rfloor> < int n" by (simp add: floor_less_iff)
qed

lemma at_index_random:
  fixes r :: real
  assumes "0 \<le> r" "r < 1" "xs \<noteq> []"
  shows "\<exists>v\<in>set xs. at_index xs \<lfloor>r * real (length xs)\<rfloor> = Some v"
proof -
  from assms(3) have n: "0 < length xs" by simp
  note fi = floor_index[OF assms(1,2) n]
  from fi have "at_index xs \<lfloor>r * real (length xs)\<rfloor> = Some (xs ! nat \<lfloor>r * real (length xs)\<rfloor>)"
    by (simp add: at_index_def)
  moreover from fi have "nat \<lfloor>r * real (length xs)\<rfloor> < length xs"
    by linarith
  ultimately show ?thesis by auto
qed

text \<open>
  Claim C8. For an enum leaf whose \<^verbatim>\<open>options\<close> is a non-empty array \<open>S\<close>, and every outcome
  of \<^verbatim>\<open>Math.random()\<close> (a number from 0 up to but not including 1), \<^verbatim>\<open>generate\<close> returns a
  member of \<open>S\<close>, having drawn one random number.
\<close>

theorem EnumValueGenerator_member:
  assumes "get_prop options ''options'' = JArr S" "S \<noteq> []"
    and "0 \<le> random_outcomes w (random_calls w)" "random_outcomes w (random_calls w) < 1"
  shows "\<exists>v\<in>set S. generate e (EnumValueGenerator options) current w
                     = Inr (v, w\<lparr>random_calls := Suc (random_calls w)\<rparr>)"
proof -
  from assms(1) have "options \<noteq> JNull" "options \<noteq> JUndefined" by auto
  moreover from at_index_random[OF assms(3,4,2)] obtain v where
    "v \<in> set S" "at_index S \<lfloor>random_outcomes w (random_calls w) * real (length S)\<rfloor> = Some v"
    by blast
  ultimately show ?thesis using assms(1)
    by (auto simp: EnumValueGenerator_generate_def Math_random_def Let_def)
qed

theorem EnumValueGenerator_member_witness:
  "value_of (generate folder
      (EnumValueGenerator (JObj [(''generator'', JStr ''enum''),
                                 (''options'', JArr [JStr ''one'', JStr ''two'', JStr ''three''])]))
      (JObj []) (tape (\<lambda>n. 1 / 2))) = Inr (JStr ''two'')"
  using EnumValueGenerator_member[of
      "JObj [(''generator'', JStr ''enum''),
             (''options'', JArr [JStr ''one'', JStr ''two'', JStr ''three''])]"
      "[JStr ''one'', JStr ''two'', JStr ''three'']" "tape (\<lambda>n. 1 / 2)" folder "JObj []"]
  by (simp add: tape_def EnumValueGenerator_generate_def Math_random_def at_index_def)

text \<open>
  Claim C5. A reference leaf is an object; it names the producer \<open>key\<close> and the property
  \<open>property\<close>. Its \<^verbatim>\<open>generate\<close> returns \<^verbatim>\<open>null\<close> when the producer has no tracker or the
  tracker does not track the property, \<^verbatim>\<open>undefined\<close> when the tracked list is still empty,
  and a member of the list otherwise: always a value, which is null-equivalent or drawn from
  the accumulated list.
\<close>

theorem ReferenceValueGenerator_picks:
  assumes "0 \<le> random_outcomes w (random_calls w)" "random_outcomes w (random_calls w) < 1"
    and "key = js_or (get_prop (JObj kvs) ''otherGenerator'') (get_prop (JObj kvs) ''other'')"
    and "property = get_prop (JObj kvs) ''property''"
    and "r = generate e (ReferenceValueGenerator (JObj kvs) True) current w"
  shows "(valueTrackers w key = None \<longrightarrow> r = Inr (JNull, w)) \<and>
         (\<forall>tracker. valueTrackers w key = Some tracker \<and> tracker property = None \<longrightarrow> r = Inr (JNull, w)) \<and>
         (\<forall>tracker. valueTrackers w key = Some tracker \<and> tracker property = Some [] \<longrightarrow>
             r = Inr (JUndefined, w\<lparr>random_calls := Suc (random_calls w)\<rparr>)) \<and>
         (\<forall>tracker vs. valueTrackers w key = Some tracker \<and> tracker property = Some vs \<and> vs \<noteq> [] \<longrightarrow>
             (\<exists>v\<in>set vs. r = Inr (v, w\<lparr>random_calls := Suc (random_calls w)\<rparr>))) \<and>
         (\<exists>v w'. r = Inr (v, w') \<and>
            (null_equivalent v \<or>
             (\<exists>tracker vs. valueTrackers w key = Some tracker \<and> tracker property = Some vs \<and> v \<in> set vs)))"
proof -
  have ne: "\<exists>v\<in>set vs. at_index vs \<lfloor>random_outcomes w (random_calls w) * real (length vs)\<rfloor> = Some v"
    if "vs \<noteq> []" for vs :: "json list"
    using at_index_random[OF assms(1,2) that] .
  have em: "at_index ([] :: json list) i = None" for i by (simp add: at_index_def)
  show ?thesis
  proof (cases "valueTrackers w key")
    case None
    then show ?thesis using assms(3-5)
      by (simp add: ReferenceValueGenerator_generate_def null_equivalent_def del: get_prop.simps)
  next
    case (Some tracker)
    show ?thesis
    proof (cases "tracker property")
      case None
      with Some show ?thesis using assms(3-5)
        by (simp add: ReferenceValueGenerator_generate_def null_equivalent_def del: get_prop.simps)
    next
      case vs: (Some vs)
      show ?thesis
      proof (cases "vs = []")
        case True
        with Some vs show ?thesis using assms(3-5) em
          by (simp add: ReferenceValueGenerator_generate_def null_equivalent_def Math_random_def Let_def
                   del: get_prop.simps)
      next
        case False
        from ne[OF False] obtain v where
          "v \<in> set vs" "at_index vs \<lfloor>random_outcomes w (random_calls w) * real (length vs)\<rfloor> = Some v"
          by blast
        with Some vs False show ?thesis using assms(3-5)
          by (simp add: ReferenceValueGenerator_generate_def null_equivalent_def Math_random_def Let_def
                   del: get_prop.simps)
      qed
    qed
  qed
qed
text \<open>After the producer P has produced the values 1, 2, 3 for \<open>x\<close>, a reference to (P, x)
  with the outcome 0.5 picks 2.\<close>

theorem ReferenceValueGenerator_picks_witness:
  "value_of (generate folder
      (ReferenceValueGenerator
         (JObj [(''generator'', JStr ''ref''), (''other'', JStr ''P''), (''property'', JStr ''x'')]) True)
      (JObj [])
      ((tape (\<lambda>n. 1 / 2))
         \<lparr>valueTrackers := [JStr ''P'' \<mapsto> [JStr ''x'' \<mapsto> [JNum 1, JNum 2, JNum 3]]]\<rparr>))
     = Inr (JNum 2)"
  using ReferenceValueGenerator_picks[of
      "(tape (\<lambda>n. 1 / 2))\<lparr>valueTrackers := [JStr ''P'' \<mapsto> [JStr ''x'' \<mapsto> [JNum 1, JNum 2, JNum 3]]]\<rparr>"
      "JStr ''P''"
      "[(''generator'', JStr ''ref''), (''other'', JStr ''P''), (''property'', JStr ''x'')]"
      "JStr ''x''"
      "generate folder
         (ReferenceValueGenerator
            (JObj [(''generator'', JStr ''ref''), (''other'', JStr ''P''), (''property'', JStr ''x'')]) True)
         (JObj [])
         ((tape (\<lambda>n. 1 / 2))
            \<lparr>valueTrackers := [JStr ''P'' \<mapsto> [JStr ''x'' \<mapsto> [JNum 1, JNum 2, JNum 3]]]\<rparr>)"
      folder "JObj []"]
  by (simp add: tape_def js_or_def ReferenceValueGenerator_generate_def Math_random_def at_index_def)

lemma file_unique_calls:
  assumes u: "truthy (get_prop options ''unique'')"
  shows "filename_arrays w a = fs \<Longrightarrow> [] \<notin> set fs \<Longrightarrow>
         \<forall>f\<in>set fs. readTextFileSync e f = Some (content f) \<Longrightarrow>
         \<exists>w'. generate_elements e (FileValueGenerator options a) current k w
                = Inr (map (\<lambda>f. JStr (content f)) (take k (rev fs)) @ replicate (k - length fs) JNull, w')
              \<and> filename_arrays w' a = rev (drop k (rev fs))"
proof (induction k arbitrary: w fs)
  case 0
  then show ?case by simp
next
  case (Suc k)
  show ?case
  proof (cases "fs = []")
    case True
    with Suc.prems have g: "generate e (FileValueGenerator options a) current w = Inr (JNull, w)"
      by (simp add: FileValueGenerator_generate_def)
    from Suc.IH[OF Suc.prems] True obtain w' where
      "generate_elements e (FileValueGenerator options a) current k w = Inr (replicate k JNull, w')"
      "filename_arrays w' a = []"
      by auto
    with g True show ?thesis by (simp add: replicate_append_same)
  next
    case False
    then obtain f fs' where fs: "fs = fs' @ [f]" by (cases fs rule: rev_cases) auto
    let ?w1 = "w\<lparr>filename_arrays := (filename_arrays w)(a := fs')\<rparr>"
    from Suc.prems fs have "f \<noteq> []" "readTextFileSync e f = Some (content f)" by auto
    with Suc.prems(1) fs u
    have g: "generate e (FileValueGenerator options a) current w = Inr (JStr (content f), ?w1)"
      by (simp add: FileValueGenerator_generate_def FileValueGenerator_read_def)
    have "filename_arrays ?w1 a = fs'" by simp
    moreover have "[] \<notin> set fs'" "\<forall>f\<in>set fs'. readTextFileSync e f = Some (content f)"
      using Suc.prems(2,3) fs by auto
    ultimately obtain w' where
      r: "generate_elements e (FileValueGenerator options a) current k ?w1
           = Inr (map (\<lambda>f. JStr (content f)) (take k (rev fs')) @ replicate (k - length fs') JNull, w')"
         "filename_arrays w' a = rev (drop k (rev fs'))"
      using Suc.IH[of ?w1 fs'] by blast
    from g r fs show ?thesis by simp
  qed
qed

text \<open>
  Claim C3. Let a file generator be created with a truthy \<^verbatim>\<open>unique\<close> over a directory whose
  files (the entries with \<^verbatim>\<open>isFile\<close>) are \<open>names\<close>, each readable with content \<open>content f\<close>, and
  let \<^verbatim>\<open>shuffle\<close> return a permutation of its argument. Then there is an order of the files, a
  permutation of \<open>names\<close>, such that any number \<open>k\<close> of successive calls of \<^verbatim>\<open>generate\<close> returns
  the contents of the first \<open>k\<close> files in that order, each file once, and \<^verbatim>\<open>null\<close> for every
  call after the last file. (\<open>generate_elements\<close> is \<open>k\<close> successive calls.)
\<close>

theorem FileValueGenerator_unique:
  assumes created: "createValueGenerator e (JStr ''file'') options vt w0 = Inr (g, w)"
    and uniq: "truthy (get_prop options ''unique'')"
    and dir: "get_prop options ''directory'' = JStr dir" "readDirSync e dir = Some entries"
    and names: "names = map (\<lambda>entry. dir @ ''/'' @ fst entry) (filter snd entries)"
    and shuffle: "mset (fst (lodash_shuffle e names (random_outcomes w0) (random_calls w0))) = mset names"
    and readable: "\<forall>f\<in>set names. readTextFileSync e f = Some (content f)"
  shows "\<exists>order. mset order = mset names \<and>
           (\<forall>k. \<exists>w'. generate_elements e g current k w
                   = Inr (map (\<lambda>f. JStr (content f)) (take k order)
                          @ replicate (k - length names) JNull, w'))"
proof -
  let ?sh = "fst (lodash_shuffle e names (random_outcomes w0) (random_calls w0))"
  from dir(1) have nn: "options \<noteq> JNull" "options \<noteq> JUndefined" by auto
  from created dir names nn have g: "g = FileValueGenerator options (allocated w0)"
    and w: "filename_arrays w (allocated w0) = ?sh"
    by (auto simp: createValueGenerator.simps[of _ "JStr ''file''"] toLowerCase_def lower_char_def
          FileValueGenerator_new_def Let_def)
  from shuffle have set_eq: "set ?sh = set names" by (rule mset_eq_setD)
  have "[] \<notin> set names" unfolding names by auto
  then have ne: "[] \<notin> set ?sh" using set_eq by simp
  have rd: "\<forall>f\<in>set ?sh. readTextFileSync e f = Some (content f)"
    using readable set_eq by simp
  have len: "length ?sh = length names" using shuffle by (metis size_mset)
  have "\<exists>w'. generate_elements e g current k w
            = Inr (map (\<lambda>f. JStr (content f)) (take k (rev ?sh)) @ replicate (k - length names) JNull, w')"
    for k
    using file_unique_calls[OF uniq w ne rd, of current k] len unfolding g by auto
  moreover have "mset (rev ?sh) = mset names" using shuffle by simp
  ultimately show ?thesis by blast
qed
text \<open>Over the directory of three files, five calls return the three contents and then
  \<^verbatim>\<open>null\<close> twice.\<close>

theorem FileValueGenerator_unique_witness:
  "\<exists>g w. createValueGenerator folder (JStr ''file'')
            (JObj [(''generator'', JStr ''file''), (''directory'', JStr ''docs''), (''unique'', JBool True)])
            True (tape (\<lambda>n. 0)) = Inr (g, w)
         \<and> value_of (generate_elements folder g (JObj []) 5 w)
             = Inr [JStr ''alpha'', JStr ''beta'', JStr ''gamma'', JNull, JNull]
         \<and> (\<exists>order. mset order = mset [''docs/a.txt'', ''docs/b.txt'', ''docs/c.txt''] \<and>
              (\<forall>k. \<exists>w'. generate_elements folder g (JObj []) k w
                 = Inr (map (\<lambda>f. JStr (if f = ''docs/a.txt'' then ''alpha''
                                         else if f = ''docs/b.txt'' then ''beta'' else ''gamma''))
                          (take k order)
                        @ replicate (k - length [''docs/a.txt'', ''docs/b.txt'', ''docs/c.txt'']) JNull,
                        w')))"
proof -
  let ?options = "JObj [(''generator'', JStr ''file''), (''directory'', JStr ''docs''), (''unique'', JBool True)]"
  let ?names = "[''docs/a.txt'', ''docs/b.txt'', ''docs/c.txt'']"
  let ?content = "\<lambda>f. if f = ''docs/a.txt'' then ''alpha'' else if f = ''docs/b.txt'' then ''beta'' else ''gamma''"
  obtain g w where c: "createValueGenerator folder (JStr ''file'') ?options True (tape (\<lambda>n. 0)) = Inr (g, w)"
    by (simp add: createValueGenerator.simps toLowerCase_def lower_char_def FileValueGenerator_new_def
          folder_def Let_def)
  have h2: "truthy (get_prop ?options ''unique'')" by simp
  have h3: "get_prop ?options ''directory'' = JStr ''docs''" by simp
  have h4: "readDirSync folder ''docs''
      = Some [(''a.txt'', True), (''sub'', False), (''b.txt'', True), (''c.txt'', True)]"
    by (simp add: folder_def)
  have h5: "?names = map (\<lambda>entry. ''docs'' @ ''/'' @ fst entry)
      (filter snd [(''a.txt'', True), (''sub'', False), (''b.txt'', True), (''c.txt'', True)])"
    by simp
  have h6: "mset (fst (lodash_shuffle folder ?names (random_outcomes (tape (\<lambda>n. 0)))
                          (random_calls (tape (\<lambda>n. 0))))) = mset ?names"
    by (simp add: folder_def)
  have h7: "\<forall>f\<in>set ?names. readTextFileSync folder f = Some (?content f)"
    by (simp add: folder_def)
  note t = FileValueGenerator_unique[OF c h2 h3 h4 h5 h6 h7, of "JObj []"]
  from c have "g = FileValueGenerator ?options 0"
     "filename_arrays w 0 = [''docs/c.txt'', ''docs/b.txt'', ''docs/a.txt'']"
    by (auto simp: createValueGenerator.simps toLowerCase_def lower_char_def FileValueGenerator_new_def
          folder_def Let_def tape_def)
  then have "value_of (generate_elements folder g (JObj []) 5 w)
             = Inr [JStr ''alpha'', JStr ''beta'', JStr ''gamma'', JNull, JNull]"
    by (simp add: eval_nat_numeral FileValueGenerator_generate_def FileValueGenerator_read_def folder_def)
  with c t show ?thesis by blast
qed

text \<open>
  Claim C1 does not hold of the code. \<^verbatim>\<open>randomBetween\<close> computes
  \<^verbatim>\<open>Math.floor(min + Math.random() * max)\<close>, a number from \<^verbatim>\<open>min\<close> up to \<^verbatim>\<open>min + max\<close>, not
  up to \<^verbatim>\<open>max\<close>. For the count \<^verbatim>\<open>{min: 2, max: 2}\<close> and the outcome 0.5 of \<^verbatim>\<open>Math.random()\<close>
  the count is 3: a join leaf with separator \<^verbatim>\<open>","\<close> returns three elements.
\<close>

theorem JoinValueGenerator_three_elements:
  "\<exists>g w1. createValueGenerator folder (JStr ''join'')
             (JObj [(''generator'', JStr ''join''), (''element'', JObj [(''generator'', JStr ''name'')]),
                    (''count'', JObj [(''min'', JNum 2), (''max'', JNum 2)]), (''separator'', JStr '','')])
             True (tape (\<lambda>n. 1 / 2)) = Inr (g, w1)
         \<and> value_of (generate folder g (JObj []) w1) = Inr (JStr ''Ada,Ada,Ada'')"
  by (simp add: createValueGenerator.simps toLowerCase_def lower_char_def tape_def
        randomBetween_def js_or_def number_of_def Math_random_def Let_def eval_nat_numeral
        maybeGenerate.simps randomName_def join_def)

section \<open>The dependency registry and the trackers: proofs\<close>

lemma map_of_replace:
  "map_of (map (\<lambda>kv. if fst kv = k then (k, v) else kv) m) x
     = (if x = k \<and> k \<in> fst ` set m then Some v else map_of m x)"
proof (induction m)
  case Nil
  show ?case by simp
next
  case (Cons a m)
  show ?case
  proof (cases "k \<in> fst ` set m")
    case True
    with Cons show ?thesis by auto
  next
    case False
    then have "map_of m k = None" by (simp add: map_of_eq_None_iff)
    with Cons False show ?thesis by auto
  qed
qed

lemma map_of_map_set: "map_of (map_set m k v) = (map_of m)(k \<mapsto> v)"
proof (cases "k \<in> fst ` set m")
  case True
  then show ?thesis by (auto simp: map_set_def map_of_replace fun_eq_iff)
next
  case False
  then have "map_of m k = None" by (simp add: map_of_eq_None_iff)
  with False show ?thesis by (auto simp: map_set_def fun_eq_iff map_add_def split: option.splits)
qed










lemma Math_random_trackers [simp]: "valueTrackers (snd (Math_random w)) = valueTrackers w"
  by (simp add: Math_random_def)

lemma randomName_trackers [simp]: "valueTrackers (snd (randomName w)) = valueTrackers w"
  by (simp add: randomName_def)

lemma randomVarName_trackers [simp]: "valueTrackers (snd (randomVarName w)) = valueTrackers w"
  by (simp add: randomVarName_def)

lemma ulid_trackers [simp]: "valueTrackers (snd (ulid w)) = valueTrackers w"
  by (simp add: ulid_def)

lemma randomBetween_trackers:
  "randomBetween minmax w = Inr (n, w') \<Longrightarrow> valueTrackers w' = valueTrackers w"
  by (auto simp: randomBetween_def Let_def split: option.splits)

lemma csv_header_trackers [simp]: "valueTrackers (snd (csv_header n w)) = valueTrackers w"
  by (induction n arbitrary: w) (simp_all add: Let_def)

lemma csv_row_trackers [simp]: "valueTrackers (snd (csv_row n w)) = valueTrackers w"
  by (induction n arbitrary: w) (simp_all add: Let_def)

lemma csv_data_trackers [simp]: "valueTrackers (snd (csv_data n c w)) = valueTrackers w"
  by (induction n arbitrary: w) (simp_all add: Let_def)

lemma Csv_trackers:
  "CsvValueGenerator_generate e options w = Inr (v, w') \<Longrightarrow> valueTrackers w' = valueTrackers w"
  by (auto simp: CsvValueGenerator_generate_def Let_def split: sum.splits dest!: randomBetween_trackers)

lemma JavaScript_trackers:
  "JavaScriptValueGenerator_generate w = Inr (v, w') \<Longrightarrow> valueTrackers w' = valueTrackers w"
  by (auto simp: JavaScriptValueGenerator_generate_def Let_def split: if_splits)

lemma Enum_trackers:
  "EnumValueGenerator_generate options w = Inr (v, w') \<Longrightarrow> valueTrackers w' = valueTrackers w"
  by (auto simp: EnumValueGenerator_generate_def Let_def split: if_splits json.splits)

lemma File_trackers:
  "FileValueGenerator_generate e options a w = Inr (v, w') \<Longrightarrow> valueTrackers w' = valueTrackers w"
  by (auto simp: FileValueGenerator_generate_def Let_def split: if_splits sum.splits)

lemma Reference_trackers:
  "ReferenceValueGenerator_generate options vt w = Inr (v, w') \<Longrightarrow> valueTrackers w' = valueTrackers w"
  by (auto simp: ReferenceValueGenerator_generate_def Let_def split: if_splits option.splits)

lemma create_trackers:
  "createValueGenerator e nm options vt w = Inr (g, w') \<Longrightarrow> valueTrackers w' = valueTrackers w"
proof (induction e nm options vt w arbitrary: g w' rule: createValueGenerator.induct)
  case (1 e nm options vt w)
  from "1.prems" show ?case
    apply (subst (asm) createValueGenerator.simps)
    apply (auto simp: Let_def FileValueGenerator_new_def split: json.splits if_splits sum.splits option.splits
                dest: "1.IH"[rotated -1])
    done
qed

lemma generate_trackers:
  "generate e g current w = Inr (v, w') \<Longrightarrow> valueTrackers w' = valueTrackers w"
  "maybeGenerate e options vt current w = Inr (v, w') \<Longrightarrow> valueTrackers w' = valueTrackers w"
  "generate_elements e el current n w = Inr (vs, w') \<Longrightarrow> valueTrackers w' = valueTrackers w"
proof (induction e g current w and e options vt current w and e el current n w
       arbitrary: v w' and v w' and vs w'
       rule: generate_maybeGenerate_generate_elements.induct)
  case (7 e options vt el current w)
  from "7.prems" obtain cnt w1 elements w2 pre w3 suf where
    a: "randomBetween (js_or (get_prop options ''count'') (JObj [(''min'', JNum 1), (''max'', JNum 10)])) w
          = Inr (cnt, w1)"
    and b: "generate_elements e el current (nat cnt) w1 = Inr (elements, w2)"
    and c: "maybeGenerate e (get_prop options ''prefix'') vt current w2 = Inr (pre, w3)"
    and d: "maybeGenerate e (get_prop options ''suffix'') vt current w3 = Inr (suf, w')"
    by (auto split: sum.splits)
  from "7.IH"(1)[OF a refl b] "7.IH"(2)[OF a refl b refl c] "7.IH"(3)[OF a refl b refl c refl d]
    randomBetween_trackers[OF a]
  show ?case by simp
next
  case (8 e options vt current w)
  from "8.prems" obtain pre w1 copied front suf where
    a: "maybeGenerate e (get_prop options ''prefix'') vt current w = Inr (pre, w1)"
    and b: "lodash_get current (get_prop options ''from'') = Inr copied"
    and c: "js_plus e pre copied = Inr front"
    and d: "maybeGenerate e (get_prop options ''suffix'') vt current w1 = Inr (suf, w')"
    by (auto split: sum.splits)
  from "8.IH"(1)[OF a] "8.IH"(2)[OF a refl b c d] show ?case by simp
next
  case (11 e options vt current w)
  show ?case
  proof (cases "\<exists>s. options = JStr s")
    case True
    with "11.prems" show ?thesis by (auto simp: maybeGenerate.simps)
  next
    case False
    with "11.prems" obtain g w1 v0 where
      a: "createValueGenerator e (get_prop options ''generator'') options vt w = Inr (g, w1)"
      and b: "generate e g current w1 = Inr (v0, w')"
      by (auto simp: maybeGenerate.simps split: json.splits sum.splits)
    from False "11.IH"[OF _ a refl b] create_trackers[OF a] show ?thesis
      by (cases options) auto
  qed
next
  case (13 e el current n w)
  from "13.prems" obtain v0 w1 vs0 where
    a: "generate e el current w = Inr (v0, w1)"
    and b: "generate_elements e el current n w1 = Inr (vs0, w')"
    by (auto split: sum.splits)
  from "13.IH"(1)[OF a] "13.IH"(2)[OF a refl b] show ?case by simp
qed (auto simp: Let_def dest: Enum_trackers File_trackers Reference_trackers Csv_trackers JavaScript_trackers)

lemma tracked_add:
  "valueTrackers w nm = Some t \<Longrightarrow> tracks t k \<Longrightarrow>
     tracked ((valueTrackers w)(nm \<mapsto> add t k v)) = tracked (valueTrackers w)"
  by (auto simp: tracked_def tracks_def add_def fun_eq_iff split: option.splits)

lemma generate_keys_tracked:
  "generate_keys e g keys out w = Inr (r, w') \<Longrightarrow> tracked (valueTrackers w') = tracked (valueTrackers w)"
proof (induction keys arbitrary: out w)
  case Nil
  then show ?case by simp
next
  case (Cons key keys)
  from Cons.prems obtain v w1 out' where
    a: "(case map_of (valueGenerators g) key of None \<Rightarrow> Inr (JUndefined, w)
          | Some valueGenerator \<Rightarrow> generate e valueGenerator out w) = Inr (v, w1)"
    and b: "lodash_set out key v = Inr out'"
    and c: "generate_keys e g keys out'
              (case valueTrackers w1 (JStr (name g)) of
                 None \<Rightarrow> w1
               | Some valueTracker \<Rightarrow>
                   if tracks valueTracker (JStr key)
                   then w1\<lparr>valueTrackers :=
                             (valueTrackers w1)(JStr (name g) \<mapsto> add valueTracker (JStr key) v)\<rparr>
                   else w1) = Inr (r, w')"
    by (auto simp: Let_def split: sum.splits)
  from a have w1: "valueTrackers w1 = valueTrackers w"
    by (auto split: option.splits dest: generate_trackers(1))
  have "tracked (valueTrackers (case valueTrackers w1 (JStr (name g)) of
                 None \<Rightarrow> w1
               | Some valueTracker \<Rightarrow>
                   if tracks valueTracker (JStr key)
                   then w1\<lparr>valueTrackers :=
                             (valueTrackers w1)(JStr (name g) \<mapsto> add valueTracker (JStr key) v)\<rparr>
                   else w1)) = tracked (valueTrackers w1)"
    by (auto split: option.splits simp: tracked_add)
  with Cons.IH[OF c] w1 show ?case by simp
qed

lemma Generator_generate_tracked:
  "Generator_generate e g w = Inr (r, w') \<Longrightarrow> tracked (valueTrackers w') = tracked (valueTrackers w)"
  unfolding Generator_generate_def by (rule generate_keys_tracked)

lemma generate_records_tracked:
  "generate_records e g n w = Inr (rs, w') \<Longrightarrow> tracked (valueTrackers w') = tracked (valueTrackers w)"
proof (induction n arbitrary: w rs)
  case 0
  then show ?case by simp
next
  case (Suc n)
  from Suc.prems obtain r w1 rs0 where
    a: "Generator_generate e g w = Inr (r, w1)" and b: "generate_records e g n w1 = Inr (rs0, w')"
    by (auto split: sum.splits)
  from Suc.IH[OF b] Generator_generate_tracked[OF a] show ?case by simp
qed

lemma run_tracked:
  "run e gs w = Inr (files, w') \<Longrightarrow> tracked (valueTrackers w') = tracked (valueTrackers w)"
proof (induction gs arbitrary: w files)
  case Nil
  then show ?case by simp
next
  case (Cons g gs)
  from Cons.prems obtain rs w1 fs0 where
    a: "generate_records e g (iterations g) w = Inr (rs, w1)" and b: "run e gs w1 = Inr (fs0, w')"
    by (auto split: sum.splits)
  from Cons.IH[OF b] generate_records_tracked[OF a] show ?case by simp
qed











section \<open>Flattening and rebuilding: proofs\<close>

lemma root_leaves_Cons:
  "root_leaves ((k, v) # rest) = map (\<lambda>leaf. (k # fst leaf, snd leaf)) (leaf_paths v) @ root_leaves rest"
  by (simp add: root_leaves_def)

lemma leaf_paths_obj:
  "kvs \<noteq> [] \<Longrightarrow> \<not> truthy (get_prop (JObj kvs) ''generator'') \<Longrightarrow> leaf_paths (JObj kvs) = root_leaves kvs"
  by (simp add: root_leaves_def)

lemma leaf_paths_leaf:
  "truthy (get_prop v ''generator'') \<or> (\<forall>kvs. v = JObj kvs \<longrightarrow> kvs = []) \<Longrightarrow> leaf_paths v = [([], v)]"
  by (cases v) auto

lemma obj_put_append:
  "k \<notin> fst ` set out \<Longrightarrow> array_index k = None \<Longrightarrow> obj_put out k v = out @ [(k, v)]"
  by (simp add: obj_put_def)

lemma step_leaves:
  "distinct (map fst out @ map (\<lambda>leaf. path_key prev (fst leaf)) (root_leaves kvs)) \<Longrightarrow>
   \<forall>leaf\<in>set (root_leaves kvs). array_index (path_key prev (fst leaf)) = None \<Longrightarrow>
   step kvs prev out = out @ map (\<lambda>leaf. (path_key prev (fst leaf), snd leaf)) (root_leaves kvs)"
proof (induction kvs prev out rule: step.induct)
  case (1 prev out)
  show ?case by (simp add: root_leaves_def)
next
  case (2 key v rest prev out)
  let ?f = "\<lambda>leaf. path_key prev (fst leaf)"
  show ?case
  proof (cases "truthy (get_prop v ''generator'') \<or> (\<forall>kvs. v = JObj kvs \<longrightarrow> kvs = [])")
    case True
    then have lp: "leaf_paths v = [([], v)]" by (rule leaf_paths_leaf)
    then have rl: "root_leaves ((key, v) # rest) = ([key], v) # root_leaves rest"
      by (simp add: root_leaves_Cons)
    from "2.prems" rl have k: "newKey prev key \<notin> fst ` set out" "array_index (newKey prev key) = None"
      by auto
    then have put: "obj_put out (newKey prev key) v = out @ [(newKey prev key, v)]"
      by (rule obj_put_append)
    have st: "step ((key, v) # rest) prev out = step rest prev (obj_put out (newKey prev key) v)"
      using True by (cases v) auto
    have d: "distinct (map fst (out @ [(newKey prev key, v)]) @ map ?f (root_leaves rest))"
      using "2.prems"(1) rl by simp
    have a: "\<forall>leaf\<in>set (root_leaves rest). array_index (?f leaf) = None"
      using "2.prems"(2) rl by simp
    have "step rest prev (out @ [(newKey prev key, v)])
            = (out @ [(newKey prev key, v)]) @ map (\<lambda>leaf. (?f leaf, snd leaf)) (root_leaves rest)"
    proof (cases "truthy (get_prop v ''generator'')")
      case True
      from "2.IH"(1)[OF True, unfolded put, OF d a] show ?thesis .
    next
      case False
      with True have e: "\<forall>kvs. v = JObj kvs \<longrightarrow> kvs = []" by simp
      show ?thesis
      proof (cases v)
        case JUndefined
        from "2.IH"(2)[OF False JUndefined, unfolded put, OF d a] show ?thesis .
      next
        case JNull
        from "2.IH"(3)[OF False JNull, unfolded put, OF d a] show ?thesis .
      next
        case (JBool b)
        from "2.IH"(4)[OF False JBool, unfolded put, OF d a] show ?thesis .
      next
        case (JNum x)
        from "2.IH"(5)[OF False JNum, unfolded put, OF d a] show ?thesis .
      next
        case (JStr x)
        from "2.IH"(6)[OF False JStr, unfolded put, OF d a] show ?thesis .
      next
        case (JArr xs)
        from "2.IH"(7)[OF False JArr, unfolded put, OF d a] show ?thesis .
      next
        case (JObj kvs)
        with e have "\<not> kvs \<noteq> []" by simp
        from "2.IH"(10)[OF False JObj this, unfolded put, OF d a] show ?thesis .
      qed
    qed
    with st put rl show ?thesis by simp
  next
    case False
    then obtain kvs where v: "v = JObj kvs" "kvs \<noteq> []" and ng: "\<not> truthy (get_prop v ''generator'')"
      by auto
    have lp: "leaf_paths v = root_leaves kvs" using v ng by (simp add: root_leaves_def)
    have rl: "root_leaves ((key, v) # rest)
        = map (\<lambda>leaf. (key # fst leaf, snd leaf)) (root_leaves kvs) @ root_leaves rest"
      by (simp add: root_leaves_Cons lp)
    let ?g = "\<lambda>leaf. path_key (Some (newKey prev key)) (fst leaf)"
    have fg: "map ?f (map (\<lambda>leaf. (key # fst leaf, snd leaf)) (root_leaves kvs)) = map ?g (root_leaves kvs)"
      by simp
    have st: "step ((key, v) # rest) prev out = step rest prev (step kvs (Some (newKey prev key)) out)"
      using v ng by simp
    have d1: "distinct (map fst out @ map ?g (root_leaves kvs))"
      using "2.prems"(1) unfolding rl by (auto simp: comp_def)
    have a1: "\<forall>leaf\<in>set (root_leaves kvs). array_index (?g leaf) = None"
    proof
      fix leaf assume "leaf \<in> set (root_leaves kvs)"
      then have "(key # fst leaf, snd leaf) \<in> set (root_leaves ((key, v) # rest))"
        unfolding rl by auto
      with "2.prems"(2) have "array_index (?f (key # fst leaf, snd leaf)) = None" by blast
      then show "array_index (?g leaf) = None" by simp
    qed
    have inner: "step kvs (Some (newKey prev key)) out
        = out @ map (\<lambda>leaf. (?g leaf, snd leaf)) (root_leaves kvs)"
      using "2.IH"(8)[OF ng v(1) v(2) d1 a1] .
    have d2: "distinct (map fst (out @ map (\<lambda>leaf. (?g leaf, snd leaf)) (root_leaves kvs))
                @ map ?f (root_leaves rest))"
      using "2.prems"(1) unfolding rl by (auto simp: comp_def)
    have a2: "\<forall>leaf\<in>set (root_leaves rest). array_index (?f leaf) = None"
      using "2.prems"(2) unfolding rl by auto
    have "step rest prev (step kvs (Some (newKey prev key)) out)
        = step kvs (Some (newKey prev key)) out @ map (\<lambda>leaf. (?f leaf, snd leaf)) (root_leaves rest)"
      using "2.IH"(9)[OF ng v(1) v(2), unfolded inner, OF d2 a2] unfolding inner .
    with st inner rl show ?thesis by (simp add: comp_def)
  qed
qed

lemma isIndex_array_index: "\<not> isIndex k \<Longrightarrow> array_index k = None"
  by (auto simp: isIndex_def array_index_def)

lemma path_key_Some:
  "q \<noteq> [] \<Longrightarrow> list_all (\<lambda>k. k \<noteq> []) p \<Longrightarrow>
     path_key (Some q) p = q @ concat (map (\<lambda>k. ''.'' @ k) p)"
  by (induction p arbitrary: q) (simp_all add: newKey_def)

lemma dotted_Cons: "dotted (k # p) = k @ concat (map (\<lambda>k. ''.'' @ k) p)"
  unfolding dotted_def by (induction p arbitrary: k) simp_all

lemma path_key_dotted:
  "p \<noteq> [] \<Longrightarrow> list_all (\<lambda>k. k \<noteq> []) p \<Longrightarrow> path_key None p = dotted p"
  by (cases p) (simp_all add: newKey_def path_key_Some dotted_Cons)

lemma split_dots_plain: "CHR ''.'' \<notin> set k \<Longrightarrow> split_dots (k @ ''.'' @ s) = k # split_dots s"
  by (induction k) auto

lemma split_dots_single: "CHR ''.'' \<notin> set k \<Longrightarrow> split_dots k = [k]"
  by (induction k) auto

lemma split_dots_dotted:
  "p \<noteq> [] \<Longrightarrow> list_all (\<lambda>k. CHR ''.'' \<notin> set k) p \<Longrightarrow> split_dots (dotted p) = p"
proof (induction p rule: list_nonempty_induct)
  case (single k)
  then show ?case by (simp add: dotted_def split_dots_single)
next
  case (cons k p)
  then obtain k' p' where p: "p = k' # p'" by (cases p) auto
  have "dotted (k # p) = k @ ''.'' @ dotted p" unfolding p dotted_def by simp
  with cons split_dots_plain[of k "dotted p"] show ?case by simp
qed

lemma plain_path_facts:
  assumes "plain_path p"
  shows "path_key None p = dotted p" "split_dots (dotted p) = p"
    "CHR ''['' \<notin> set (dotted p)" "CHR '']'' \<notin> set (dotted p)" "array_index (dotted p) = None"
proof -
  from assms have ne: "p \<noteq> []" and pk: "list_all plain_key p" by (simp_all add: plain_path_def)
  from pk have a: "list_all (\<lambda>k. k \<noteq> []) p" and b: "list_all (\<lambda>k. CHR ''.'' \<notin> set k) p"
    by (simp_all add: list_all_iff plain_key_def)
  show "path_key None p = dotted p" using ne a by (rule path_key_dotted)
  show sd: "split_dots (dotted p) = p" using ne b by (rule split_dots_dotted)
  obtain k q where p: "p = k # q" using ne by (cases p) auto
  have "set (dotted p) \<subseteq> (\<Union>k\<in>set p. set k) \<union> {CHR ''.''}"
    unfolding p dotted_Cons by auto
  moreover have "\<forall>k\<in>set p. CHR ''['' \<notin> set k \<and> CHR '']'' \<notin> set k"
    using pk by (simp add: list_all_iff plain_key_def)
  ultimately show "CHR ''['' \<notin> set (dotted p)" "CHR '']'' \<notin> set (dotted p)" by auto
  show "array_index (dotted p) = None"
  proof (cases q)
    case Nil
    with p pk show ?thesis by (simp add: dotted_def isIndex_array_index plain_key_def)
  next
    case (Cons k' q')
    then have "CHR ''.'' \<in> set (dotted p)" unfolding p dotted_Cons by simp
    moreover have "\<not> is_digit CHR ''.''" by (simp add: is_digit_def)
    ultimately have "\<not> list_all is_digit (dotted p)"
      by (auto simp: list_all_iff)
    then show ?thesis by (simp add: array_index_def)
  qed
qed

lemma dotted_inj: "plain_path p \<Longrightarrow> plain_path q \<Longrightarrow> dotted p = dotted q \<Longrightarrow> p = q"
  by (metis plain_path_facts(2))

lemma plain_entry:
  "plain (JObj kvs) \<Longrightarrow> (k, v) \<in> set kvs \<Longrightarrow> plain_key k \<and> plain v"
  by (auto simp: list_all_iff)

lemma leaf_paths_plain:
  "plain v \<Longrightarrow> leaf \<in> set (leaf_paths v) \<Longrightarrow> list_all plain_key (fst leaf)"
proof (induction v arbitrary: leaf rule: leaf_paths.induct)
  case (1 kvs)
  show ?case
  proof (cases "kvs = [] \<or> truthy (get_prop (JObj kvs) ''generator'')")
    case True
    with "1.prems" show ?thesis by simp
  next
    case False
    with "1.prems"(2) obtain kv l where kv: "kv \<in> set kvs" "l \<in> set (leaf_paths (snd kv))"
      "leaf = (fst kv # fst l, snd l)"
      by auto
    from "1.prems"(1) kv(1) have "plain_key (fst kv)" "plain (snd kv)"
      by (auto simp: list_all_iff)
    with "1.IH"[OF False kv(1) _ kv(2)] kv(3) show ?thesis by simp
  qed
qed simp_all

lemma root_leaves_plain:
  assumes "plain (JObj kvs)" "leaf \<in> set (root_leaves kvs)"
  shows "plain_path (fst leaf)"
proof -
  from assms(2) obtain kv l where kv: "kv \<in> set kvs" "l \<in> set (leaf_paths (snd kv))"
      "leaf = (fst kv # fst l, snd l)"
    by (auto simp: root_leaves_def)
  from assms(1) kv(1) have "plain_key (fst kv)" "plain (snd kv)"
    by (auto simp: list_all_iff)
  with leaf_paths_plain[OF _ kv(2)] kv(3) show ?thesis by (simp add: plain_path_def)
qed

lemma leaf_paths_distinct: "plain v \<Longrightarrow> distinct (map fst (leaf_paths v))"
proof (induction v rule: leaf_paths.induct)
  case (1 kvs)
  show ?case
  proof (cases "kvs = [] \<or> truthy (get_prop (JObj kvs) ''generator'')")
    case True
    then show ?thesis by simp
  next
    case False
    have ih: "\<And>kv. kv \<in> set kvs \<Longrightarrow> distinct (map fst (leaf_paths (snd kv)))"
      using "1.IH"[OF False] "1.prems" by (auto simp: list_all_iff)
    from "1.prems" have dk: "distinct (map fst kvs)" by simp
    have "distinct (map fst (concat (map (\<lambda>kv. map (\<lambda>leaf. (fst kv # fst leaf, snd leaf))
             (leaf_paths (snd kv))) xs)))"
      if "set xs \<subseteq> set kvs" "distinct (map fst xs)" for xs
      using that
    proof (induction xs)
      case Nil
      show ?case by simp
    next
      case (Cons x xs)
      have "distinct (map fst (map (\<lambda>leaf. (fst x # fst leaf, snd leaf)) (leaf_paths (snd x))))"
        using ih[of x] Cons.prems(1) by (simp add: distinct_map comp_def inj_on_def)
      moreover have "fst x \<notin> fst ` set xs" using Cons.prems(2) by auto
      then have "set (map fst (map (\<lambda>leaf. (fst x # fst leaf, snd leaf)) (leaf_paths (snd x))))
            \<inter> set (map fst (concat (map (\<lambda>kv. map (\<lambda>leaf. (fst kv # fst leaf, snd leaf))
                  (leaf_paths (snd kv))) xs))) = {}"
        by (auto simp: image_iff)
      ultimately show ?case using Cons by simp
    qed
    from this[of kvs] dk False show ?thesis by simp
  qed
qed simp_all

lemma root_leaves_distinct: "plain (JObj kvs) \<Longrightarrow> distinct (map fst (root_leaves kvs))"
proof (cases "kvs = []")
  case True
  then show ?thesis by (simp add: root_leaves_def)
next
  case False
  assume p: "plain (JObj kvs)"
  with False have "leaf_paths (JObj kvs) = root_leaves kvs" by (simp add: root_leaves_def)
  with leaf_paths_distinct[OF p] show ?thesis by simp
qed

lemma flatten_plain:
  assumes "plain (JObj kvs)"
  shows "flatten (JObj kvs) = Inr (map (\<lambda>leaf. (dotted (fst leaf), snd leaf)) (root_leaves kvs))"
proof -
  have pp: "\<And>leaf. leaf \<in> set (root_leaves kvs) \<Longrightarrow> plain_path (fst leaf)"
    using root_leaves_plain[OF assms] .
  have eq: "map (\<lambda>leaf. path_key None (fst leaf)) (root_leaves kvs)
          = map (\<lambda>leaf. dotted (fst leaf)) (root_leaves kvs)"
    using pp by (simp add: plain_path_facts(1))
  have "inj_on dotted (set (map fst (root_leaves kvs)))"
  proof (rule inj_onI)
    fix a b assume "a \<in> set (map fst (root_leaves kvs))" "b \<in> set (map fst (root_leaves kvs))"
      "dotted a = dotted b"
    moreover from this(1,2) pp have "plain_path a" "plain_path b" by auto
    ultimately show "a = b" using dotted_inj by blast
  qed
  with root_leaves_distinct[OF assms]
  have "distinct (map dotted (map fst (root_leaves kvs)))"
    by (subst distinct_map) blast
  then have d: "distinct (map fst [] @ map (\<lambda>leaf. path_key None (fst leaf)) (root_leaves kvs))"
    unfolding eq by (simp add: comp_def)
  have a: "\<forall>leaf\<in>set (root_leaves kvs). array_index (path_key None (fst leaf)) = None"
    using pp by (simp add: plain_path_facts)
  have "step kvs None [] = map (\<lambda>leaf. (path_key None (fst leaf), snd leaf)) (root_leaves kvs)"
    using step_leaves[OF d a] by simp
  also have "\<dots> = map (\<lambda>leaf. (dotted (fst leaf), snd leaf)) (root_leaves kvs)"
    using pp by (simp add: plain_path_facts(1))
  finally show ?thesis by (simp add: flatten_def)
qed

lemma set_all_append:
  "set_all out xs = Inr mid \<Longrightarrow> set_all out (xs @ ys) = set_all mid ys"
  by (induction xs arbitrary: out) (auto split: sum.splits)

lemma plain_key_facts:
  assumes "plain_key k"
  shows "k \<noteq> ''__proto__''" "k \<noteq> ''constructor''" "k \<noteq> ''prototype''" "k \<notin> set inherited"
    "array_index k = None" "\<not> isIndex k"
  using assms by (auto simp: plain_key_def inherited_def isIndex_array_index)

lemma baseSet_leaf:
  assumes "plain_key k" "k \<notin> fst ` set acc"
  shows "baseSet (JObj acc) [k] x = Inr (JObj (acc @ [(k, x)]))"
  using assms plain_key_facts[OF assms(1)]
  by (simp add: assignValue_def obj_put_def)

lemma baseSet_obj:
  "baseSet (JObj c) p x = Inr r \<Longrightarrow> \<exists>c'. r = JObj c'"
  by (cases p) (auto simp: assignValue_def split: if_splits option.splits sum.splits)

lemma map_of_absent: "k \<notin> fst ` set acc \<Longrightarrow> map_of acc k = None"
  by (simp add: map_of_eq_None_iff)

lemma member_absent:
  "plain_key k \<Longrightarrow> k \<notin> fst ` set acc \<Longrightarrow> member (JObj acc) k = Some JUndefined"
  using plain_key_facts(4)[of k]
  by (simp add: member_def map_of_absent)

lemma member_last:
  "k \<notin> fst ` set acc \<Longrightarrow> member (JObj (acc @ [(k, v)])) k = Some v"
  by (simp add: member_def map_add_def map_of_absent)

lemma obj_put_last:
  "k \<notin> fst ` set acc \<Longrightarrow> obj_put (acc @ [(k, v)]) k v' = acc @ [(k, v')]"
proof -
  assume a: "k \<notin> fst ` set acc"
  then have "map (\<lambda>(k', v'a). if k' = k then (k', v') else (k', v'a)) acc = acc"
    by (induction acc) auto
  then show ?thesis by (simp add: obj_put_def)
qed

lemma baseSet_new:
  assumes "plain_key k" "k \<notin> fst ` set acc" "plain_path p"
    and "baseSet (JObj []) p x = Inr c"
  shows "baseSet (JObj acc) (k # p) x = Inr (JObj (acc @ [(k, c)]))"
proof -
  from assms(3) obtain k' p' where p: "p = k' # p'" "plain_key k'"
    by (cases p) (auto simp: plain_path_def)
  have "\<not> isIndex (hd p)" using p plain_key_facts(6) by simp
  with assms(1,2,4) p(1) plain_key_facts[OF assms(1)] show ?thesis
    by (simp add: member_absent isObject_def assignValue_def obj_put_def)
qed

lemma baseSet_existing:
  assumes "plain_key k" "k \<notin> fst ` set acc" "p \<noteq> []"
    and "baseSet (JObj c0) p x = Inr c"
  shows "baseSet (JObj (acc @ [(k, JObj c0)])) (k # p) x = Inr (JObj (acc @ [(k, c)]))"
  using assms plain_key_facts[OF assms(1)]
  by (simp add: member_last isObject_def assignValue_def obj_put_last del: baseSet.simps(2))
     (simp add: member_last isObject_def assignValue_def obj_put_last)

lemma set_all_lift:
  assumes "plain_key k" "k \<notin> fst ` set acc"
  shows "\<forall>leaf\<in>set ls. fst leaf \<noteq> [] \<Longrightarrow> set_all (JObj c0) ls = Inr (JObj c1) \<Longrightarrow>
     set_all (JObj (acc @ [(k, JObj c0)])) (map (\<lambda>leaf. (k # fst leaf, snd leaf)) ls)
       = Inr (JObj (acc @ [(k, JObj c1)]))"
proof (induction ls arbitrary: c0)
  case Nil
  then show ?case by simp
next
  case (Cons l ls)
  from Cons.prems(2) obtain r where r: "baseSet (JObj c0) (fst l) (snd l) = Inr r"
    "set_all r ls = Inr (JObj c1)"
    by (auto split: sum.splits)
  from baseSet_obj[OF r(1)] obtain c' where c': "r = JObj c'" by blast
  from Cons.prems(1) have ne: "fst l \<noteq> []" by simp
  from baseSet_existing[OF assms ne r(1)[unfolded c']]
  have "baseSet (JObj (acc @ [(k, JObj c0)])) (k # fst l) (snd l) = Inr (JObj (acc @ [(k, JObj c')]))" .
  moreover from Cons.IH[of c'] Cons.prems(1) r(2) c'
  have "set_all (JObj (acc @ [(k, JObj c')])) (map (\<lambda>leaf. (k # fst leaf, snd leaf)) ls)
       = Inr (JObj (acc @ [(k, JObj c1)]))" by simp
  ultimately show ?case by simp
qed

lemma set_all_enter:
  assumes "plain_key k" "k \<notin> fst ` set acc" "ls \<noteq> []" "\<forall>leaf\<in>set ls. plain_path (fst leaf)"
    and "set_all (JObj []) ls = Inr (JObj c1)"
  shows "set_all (JObj acc) (map (\<lambda>leaf. (k # fst leaf, snd leaf)) ls) = Inr (JObj (acc @ [(k, JObj c1)]))"
proof -
  from assms(3) obtain l ls' where ls: "ls = l # ls'" by (cases ls) auto
  from assms(5) ls obtain r where r: "baseSet (JObj []) (fst l) (snd l) = Inr r"
    "set_all r ls' = Inr (JObj c1)"
    by (auto split: sum.splits)
  from baseSet_obj[OF r(1)] obtain c' where c': "r = JObj c'" by blast
  from assms(4) ls have pl: "plain_path (fst l)" by simp
  from baseSet_new[OF assms(1,2) pl r(1)]
  have "baseSet (JObj acc) (k # fst l) (snd l) = Inr (JObj (acc @ [(k, JObj c')]))" using c' by simp
  moreover have "\<forall>leaf\<in>set ls'. fst leaf \<noteq> []" using assms(4) ls by (auto simp: plain_path_def)
  from set_all_lift[OF assms(1,2) this, of c' c1] r(2) c'
  have "set_all (JObj (acc @ [(k, JObj c')])) (map (\<lambda>leaf. (k # fst leaf, snd leaf)) ls')
       = Inr (JObj (acc @ [(k, JObj c1)]))" by simp
  ultimately show ?thesis using ls by simp
qed

lemma leaf_paths_nonempty: "leaf_paths v \<noteq> []"
proof (induction v rule: leaf_paths.induct)
  case (1 kvs)
  show ?case
  proof (cases "kvs = [] \<or> truthy (get_prop (JObj kvs) ''generator'')")
    case True
    then show ?thesis by simp
  next
    case False
    then obtain kv rest where kvs: "kvs = kv # rest" by (cases kvs) auto
    from "1.IH"[OF False, of kv] kvs have "leaf_paths (snd kv) \<noteq> []" by simp
    with False kvs show ?thesis by simp
  qed
qed simp_all

lemma rebuild_entries:
  assumes ih: "\<And>k c. (k, c) \<in> set kvs2 \<Longrightarrow> plain c \<Longrightarrow>
                  (\<forall>ckvs. c = JObj ckvs \<longrightarrow> ckvs \<noteq> [] \<longrightarrow> set_all (JObj []) (root_leaves ckvs) = Inr c)"
  shows "distinct (map fst (kvs1 @ kvs2)) \<Longrightarrow> list_all (\<lambda>kv. plain_key (fst kv) \<and> plain (snd kv)) kvs2 \<Longrightarrow>
         set_all (JObj kvs1) (root_leaves kvs2) = Inr (JObj (kvs1 @ kvs2))"
  using ih
proof (induction kvs2 arbitrary: kvs1)
  case Nil
  then show ?case by (simp add: root_leaves_def)
next
  case (Cons kv kvs2)
  obtain k c where kv: "kv = (k, c)" by (cases kv)
  from Cons.prems(1,2) kv have k: "plain_key k" "k \<notin> fst ` set kvs1" and pc: "plain c"
    by auto
  have entry: "set_all (JObj kvs1) (map (\<lambda>leaf. (k # fst leaf, snd leaf)) (leaf_paths c))
                 = Inr (JObj (kvs1 @ [(k, c)]))"
  proof (cases "\<exists>ckvs. c = JObj ckvs \<and> ckvs \<noteq> []")
    case True
    then obtain ckvs where c: "c = JObj ckvs" "ckvs \<noteq> []" by blast
    from pc c have ng: "\<not> truthy (get_prop (JObj ckvs) ''generator'')" by simp
    with c have lp: "leaf_paths c = root_leaves ckvs" by (simp add: root_leaves_def)
    from Cons.prems(3)[of k c] kv pc c have sa: "set_all (JObj []) (root_leaves ckvs) = Inr (JObj ckvs)"
      by simp
    have ne: "root_leaves ckvs \<noteq> []" using leaf_paths_nonempty[of c] lp by simp
    have pp: "\<forall>leaf\<in>set (root_leaves ckvs). plain_path (fst leaf)"
      using root_leaves_plain[of ckvs] pc c by simp
    from set_all_enter[OF k ne pp sa] lp c show ?thesis by simp
  next
    case False
    with pc have "leaf_paths c = [([], c)]" by (cases c) auto
    with baseSet_leaf[OF k] show ?thesis by simp
  qed
  have d: "distinct (map fst ((kvs1 @ [(k, c)]) @ kvs2))" using Cons.prems(1) kv by simp
  have pl: "list_all (\<lambda>kv. plain_key (fst kv) \<and> plain (snd kv)) kvs2" using Cons.prems(2) by simp
  have "set_all (JObj (kvs1 @ [(k, c)])) (root_leaves kvs2) = Inr (JObj ((kvs1 @ [(k, c)]) @ kvs2))"
  proof (rule Cons.IH[OF d pl])
    fix k' c' assume "(k', c') \<in> set kvs2" "plain c'"
    then show "\<forall>ckvs. c' = JObj ckvs \<longrightarrow> ckvs \<noteq> [] \<longrightarrow> set_all (JObj []) (root_leaves ckvs) = Inr c'"
      using Cons.prems(3)[of k' c'] by simp
  qed
  with set_all_append[OF entry, of "root_leaves kvs2"] kv show ?case
    by (simp add: root_leaves_Cons)
qed

lemma size_entry: "(k, c) \<in> set kvs \<Longrightarrow> size c < size (JObj kvs)"
  by (induction kvs) auto

lemma rebuild_plain:
  "plain (JObj kvs) \<Longrightarrow> set_all (JObj []) (root_leaves kvs) = Inr (JObj kvs)"
proof (induction "JObj kvs" arbitrary: kvs rule: measure_induct_rule[of size])
  case less
  have ih: "\<And>k c. (k, c) \<in> set kvs \<Longrightarrow> plain c \<Longrightarrow>
       (\<forall>ckvs. c = JObj ckvs \<longrightarrow> ckvs \<noteq> [] \<longrightarrow> set_all (JObj []) (root_leaves ckvs) = Inr c)"
    using less.hyps size_entry by blast
  from less.prems have "distinct (map fst ([] @ kvs))"
    "list_all (\<lambda>kv. plain_key (fst kv) \<and> plain (snd kv)) kvs"
    by simp_all
  from rebuild_entries[OF ih this] show ?case by simp
qed

lemma leaf_value:
  "plain v \<Longrightarrow> leaf \<in> set (leaf_paths v) \<Longrightarrow> get_prop (snd leaf) ''generator'' = JUndefined"
proof (induction v arbitrary: leaf rule: leaf_paths.induct)
  case (1 kvs)
  show ?case
  proof (cases "kvs = []")
    case True
    with "1.prems" show ?thesis by simp
  next
    case False
    from "1.prems"(1) have ng: "\<not> truthy (get_prop (JObj kvs) ''generator'')" by simp
    with False "1.prems"(2) obtain kv l where kv: "kv \<in> set kvs" "l \<in> set (leaf_paths (snd kv))"
      "leaf = (fst kv # fst l, snd l)"
      by auto
    from "1.prems"(1) kv(1) have "plain (snd kv)" by (auto simp: list_all_iff)
    from "1.IH"[OF _ kv(1) this kv(2)] False ng kv(3) show ?thesis by simp
  qed
qed simp_all

lemma root_leaf_value:
  assumes "plain (JObj kvs)" "leaf \<in> set (root_leaves kvs)"
  shows "get_prop (snd leaf) ''generator'' = JUndefined"
proof -
  from assms(2) obtain kv l where kv: "kv \<in> set kvs" "l \<in> set (leaf_paths (snd kv))"
      "leaf = (fst kv # fst l, snd l)"
    by (auto simp: root_leaves_def)
  from assms(1) kv(1) have "plain (snd kv)" by (auto simp: list_all_iff)
  from leaf_value[OF this kv(2)] kv(3) show ?thesis by simp
qed

lemma foldl_map_set_map_of:
  "map_of (foldl (\<lambda>m kv. map_set m (fst kv) (snd kv)) m0 xs) = map_of (rev xs @ m0)"
proof (induction xs arbitrary: m0)
  case Nil
  show ?case by simp
next
  case (Cons x xs)
  show ?case by (simp add: Cons.IH map_of_map_set fun_eq_iff map_add_def split: option.splits)
qed

lemma construct_literals:
  "\<forall>kv\<in>set flat. get_prop (snd kv) ''generator'' = JUndefined \<Longrightarrow>
   construct e flat vgs deps w
     = Inr (foldl (\<lambda>m kv. map_set m (fst kv) (snd kv)) vgs
              (map (\<lambda>kv. (fst kv, DefaultValueGenerator (snd kv))) flat), deps, w)"
proof (induction flat arbitrary: vgs)
  case Nil
  show ?case by simp
next
  case (Cons kv flat)
  obtain key v where kv: "kv = (key, v)" by (cases kv)
  from Cons.prems kv have u: "get_prop v ''generator'' = JUndefined" by simp
  then have c: "createValueGenerator e (get_prop v ''generator'') v True w = Inr (DefaultValueGenerator v, w)"
    by (simp add: createValueGenerator.simps)
  from u have r: "\<not> is_reference v" by (simp add: is_reference_def)
  from Cons.IH[of "map_set vgs key (DefaultValueGenerator v)"] Cons.prems c r kv
  show ?case by simp
qed

lemma literal_generators:
  assumes d: "distinct (map fst flat)" and m: "(key, v) \<in> set flat"
  shows "map_of (foldl (\<lambda>m kv. map_set m (fst kv) (snd kv)) []
              (map (\<lambda>kv. (fst kv, DefaultValueGenerator (snd kv))) flat)) key
           = Some (DefaultValueGenerator v)"
proof -
  let ?xs = "map (\<lambda>kv. (fst kv, DefaultValueGenerator (snd kv))) flat"
  have "distinct (map fst (rev ?xs))" using d by (simp add: comp_def rev_map[symmetric])
  moreover have "(key, DefaultValueGenerator v) \<in> set (rev ?xs)" using m by force
  ultimately have "map_of (rev ?xs) key = Some (DefaultValueGenerator v)"
    by (rule map_of_is_SomeI)
  then show ?thesis by (simp add: foldl_map_set_map_of)
qed

lemma lodash_set_plain:
  "plain_path p \<Longrightarrow> lodash_set (JObj out) (dotted p) v = baseSet (JObj out) p v"
  by (simp add: lodash_set_def castPath_def isObject_def plain_path_facts)

lemma generate_keys_literals:
  "\<forall>leaf\<in>set ls. plain_path (fst leaf) \<and>
       map_of (valueGenerators g) (dotted (fst leaf)) = Some (DefaultValueGenerator (snd leaf)) \<Longrightarrow>
   set_all (JObj out) ls = Inr r \<Longrightarrow>
   \<exists>w'. generate_keys e g (map (\<lambda>leaf. dotted (fst leaf)) ls) (JObj out) w = Inr (r, w')"
proof (induction ls arbitrary: out w)
  case Nil
  then show ?case by simp
next
  case (Cons l ls)
  from Cons.prems(2) obtain r1 where r1: "baseSet (JObj out) (fst l) (snd l) = Inr r1"
    "set_all r1 ls = Inr r"
    by (auto split: sum.splits)
  from baseSet_obj[OF r1(1)] obtain out' where o: "r1 = JObj out'" by blast
  from Cons.prems(1) have pl: "plain_path (fst l)"
    and vg: "map_of (valueGenerators g) (dotted (fst l)) = Some (DefaultValueGenerator (snd l))"
    by simp_all
  have ls: "lodash_set (JObj out) (dotted (fst l)) (snd l) = Inr (JObj out')"
    using lodash_set_plain[OF pl] r1(1) o by simp
  let ?w2 = "case valueTrackers w (JStr (name g)) of
                 None \<Rightarrow> w
               | Some valueTracker \<Rightarrow>
                   if tracks valueTracker (JStr (dotted (fst l)))
                   then w\<lparr>valueTrackers :=
                             (valueTrackers w)(JStr (name g) \<mapsto> add valueTracker (JStr (dotted (fst l))) (snd l))\<rparr>
                   else w"
  from Cons.IH[of out' ?w2] Cons.prems(1) r1(2) o obtain w' where
    "generate_keys e g (map (\<lambda>leaf. dotted (fst leaf)) ls) (JObj out') ?w2 = Inr (r, w')"
    by auto
  with vg ls show ?case by (simp add: Let_def)
qed


text \<open>
  Claim C9, as amended. For a plain template (a nested object without generator
  specifications whose keys, at every level, are distinct, not empty, without dot or bracket,
  not array indices, and not among the names every object inherits or lodash refuses),
  \<^verbatim>\<open>flatten\<close> lists the leaves in the traversal order of the document, each under its dotted
  path; the constructor of \<^verbatim>\<open>Generator\<close> succeeds on it and changes nothing; and every call of
  \<^verbatim>\<open>Generator.generate\<close>, which writes each leaf back at its path with \<^verbatim>\<open>set\<close> in that order,
  returns the template itself.
\<close>

theorem flatten_roundtrip:
  assumes "plain (JObj kvs)"
  shows "flatten (JObj kvs) = Inr (map (\<lambda>leaf. (dotted (fst leaf), snd leaf)) (root_leaves kvs))
       \<and> (\<exists>g. Generator_new e nm its (JObj kvs) w = Inr (g, w)
              \<and> (\<forall>w2. \<exists>w3. Generator_generate e g w2 = Inr (JObj kvs, w3)))"
proof -
  let ?flat = "map (\<lambda>leaf. (dotted (fst leaf), snd leaf)) (root_leaves kvs)"
  let ?vgs = "foldl (\<lambda>m kv. map_set m (fst kv) (snd kv)) []
                (map (\<lambda>kv. (fst kv, DefaultValueGenerator (snd kv))) ?flat)"
  let ?g = "\<lparr>name = nm, iterations = its, flatTemplate = ?flat, valueGenerators = ?vgs,
             dependencies = []\<rparr>"
  have fl: "flatten (JObj kvs) = Inr ?flat" using assms by (rule flatten_plain)
  have pp: "\<And>leaf. leaf \<in> set (root_leaves kvs) \<Longrightarrow> plain_path (fst leaf)"
    using root_leaves_plain[OF assms] .
  have lit: "\<forall>kv\<in>set ?flat. get_prop (snd kv) ''generator'' = JUndefined"
    using root_leaf_value[OF assms] by auto
  have new: "Generator_new e nm its (JObj kvs) w = Inr (?g, w)"
    by (simp add: Generator_new_def fl construct_literals[OF lit])
  have "inj_on dotted (set (map fst (root_leaves kvs)))"
  proof (rule inj_onI)
    fix a b assume "a \<in> set (map fst (root_leaves kvs))" "b \<in> set (map fst (root_leaves kvs))"
      "dotted a = dotted b"
    moreover from this(1,2) pp have "plain_path a" "plain_path b" by auto
    ultimately show "a = b" using dotted_inj by blast
  qed
  with root_leaves_distinct[OF assms]
  have "distinct (map dotted (map fst (root_leaves kvs)))"
    by (subst distinct_map) blast
  then have df: "distinct (map fst ?flat)" by (simp add: comp_def)
  have gens: "\<forall>leaf\<in>set (root_leaves kvs). plain_path (fst leaf) \<and>
       map_of (valueGenerators ?g) (dotted (fst leaf)) = Some (DefaultValueGenerator (snd leaf))"
  proof
    fix leaf assume l: "leaf \<in> set (root_leaves kvs)"
    then have "(dotted (fst leaf), snd leaf) \<in> set ?flat" by auto
    from literal_generators[OF df this] pp[OF l]
    show "plain_path (fst leaf) \<and>
       map_of (valueGenerators ?g) (dotted (fst leaf)) = Some (DefaultValueGenerator (snd leaf))"
      by simp
  qed
  have "\<exists>w3. Generator_generate e ?g w2 = Inr (JObj kvs, w3)" for w2
    using generate_keys_literals[OF gens rebuild_plain[OF assms], of e w2]
    by (simp add: Generator_generate_def comp_def)
  with fl new show ?thesis by blast
qed

text \<open>\<^verbatim>\<open>{"a": {"b": 1, "c": 2}}\<close> flattens to \<^verbatim>\<open>a.b\<close>, then \<^verbatim>\<open>a.c\<close>, and is rebuilt.\<close>

theorem flatten_roundtrip_witness:
  "flatten (JObj [(''a'', JObj [(''b'', JNum 1), (''c'', JNum 2)])])
     = Inr [(''a.b'', JNum 1), (''a.c'', JNum 2)]
   \<and> (\<exists>g. Generator_new folder ''t'' 1 (JObj [(''a'', JObj [(''b'', JNum 1), (''c'', JNum 2)])])
              (tape (\<lambda>n. 0)) = Inr (g, tape (\<lambda>n. 0))
          \<and> (\<forall>w2. \<exists>w3. Generator_generate folder g w2
                = Inr (JObj [(''a'', JObj [(''b'', JNum 1), (''c'', JNum 2)])], w3)))"
proof -
  have p: "plain (JObj [(''a'', JObj [(''b'', JNum 1), (''c'', JNum 2)])])"
    by (simp add: plain_key_def isIndex_def is_digit_def inherited_def)
  have "map (\<lambda>leaf. (dotted (fst leaf), snd leaf))
          (root_leaves [(''a'', JObj [(''b'', JNum 1), (''c'', JNum 2)])])
        = [(''a.b'', JNum 1), (''a.c'', JNum 2)]"
    by (simp add: root_leaves_def dotted_def)
  with flatten_roundtrip[OF p, of folder "''t''" 1 "tape (\<lambda>n. 0)"] show ?thesis by simp
qed


text \<open>
  Claim C9, as stated, excludes only generator specifications and keys with a dot. It fails
  for a key that is an array index below the top level: \<^verbatim>\<open>set\<close> creates an array for
  \<^verbatim>\<open>a.0\<close>, so \<^verbatim>\<open>{"a": {"0": 1}}\<close> is rebuilt as \<^verbatim>\<open>{"a": [1]}\<close>. It fails for an empty key: the
  leaf of \<^verbatim>\<open>{"": {"b": 1}}\<close> is flattened to the path \<^verbatim>\<open>b\<close>, and the record is \<^verbatim>\<open>{"b": 1}\<close>.
  It fails for a key that \<^verbatim>\<open>set\<close> refuses to write: \<^verbatim>\<open>{"constructor": 1}\<close> is rebuilt as \<^verbatim>\<open>{}\<close>.
  And the flattened object lists an array-index key before the others, whatever the
  traversal order: \<^verbatim>\<open>{"1": {"x": 1}, "2": 5}\<close> flattens to \<^verbatim>\<open>2\<close>, then \<^verbatim>\<open>1.x\<close>.
\<close>

theorem flatten_roundtrip_counterexample:
  "(\<exists>g w. Generator_new folder ''t'' 1 (JObj [(''a'', JObj [(''0'', JNum 1)])]) (tape (\<lambda>n. 0)) = Inr (g, w)
       \<and> flatTemplate g = [(''a.0'', JNum 1)]
       \<and> value_of (Generator_generate folder g w) = Inr (JObj [(''a'', JArr [JNum 1])]))
   \<and> (\<exists>g w. Generator_new folder ''t'' 1 (JObj [('''', JObj [(''b'', JNum 1)])]) (tape (\<lambda>n. 0)) = Inr (g, w)
       \<and> flatTemplate g = [(''b'', JNum 1)]
       \<and> value_of (Generator_generate folder g w) = Inr (JObj [(''b'', JNum 1)]))
   \<and> (\<exists>g w. Generator_new folder ''t'' 1 (JObj [(''constructor'', JNum 1)]) (tape (\<lambda>n. 0)) = Inr (g, w)
       \<and> flatTemplate g = [(''constructor'', JNum 1)]
       \<and> value_of (Generator_generate folder g w) = Inr (JObj []))
   \<and> flatten (JObj [(''1'', JObj [(''x'', JNum 1)]), (''2'', JNum 5)])
       = Inr [(''2'', JNum 5), (''1.x'', JNum 1)]"
  by (simp add: Generator_new_def flatten_def obj_put_def newKey_def array_index_def is_digit_def
        parse_nat_def createValueGenerator.simps is_reference_def Generator_generate_def map_set_def
        tape_def lodash_set_def castPath_def isObject_def isIndex_def member_def inherited_def
        assignValue_def Let_def)
end
